theory Spec2Isabelle
  imports Complex_Main "HOL-Library.Word" "HOL-Library.Sublist"
begin

unbundle bit_operations_syntax

section \<open>Common types\<close>

type_synonym byte = "8 word"
type_synonym uint32_t = "32 word"
type_synonym uint64_t = "64 word"

text \<open>
  The error codes of \<^verbatim>\<open>ErrorCode\<close> that the modelled functions produce.
\<close>

datatype ErrorCode =
    kSuccess
  | kError
  | kDownloadInvalidMetadataMagicString
  | kUnsupportedMajorPayloadVersion
  | kDownloadInvalidMetadataSize
  | kPostInstallMountError
  | kPostinstallRunnerError
  | kPostinstallBootedFromFirmwareB
  | kPostinstallFirmwareRONotUpdatable
  | kPostinstallPowerwashError
  | kUpdatedButNotActive

section \<open>payload\_consumer/payload\_metadata.cc\<close>

text \<open>
  \<^verbatim>\<open>MetadataParseResult\<close>: its \<^verbatim>\<open>kSuccess\<close> and \<^verbatim>\<open>kError\<close> are \<open>kParseSuccess\<close> and
  \<open>kParseError\<close> here, the names being those of two error codes as well.
\<close>

datatype MetadataParseResult = kParseSuccess | kParseError | kInsufficientData

text \<open>
  Modelled from the spec: \<^verbatim>\<open>kDeltaMagic\<close> is declared in payload\_constants, which is
  not among the sources; the wire format gives it as the four bytes 'C','r','A','U' at
  offset 0, so \<^verbatim>\<open>sizeof(kDeltaMagic)\<close> is 4.
\<close>

definition kDeltaMagic :: "byte list" where
  "kDeltaMagic = [0x43, 0x72, 0x41, 0x55]"

definition kDeltaVersionOffset :: nat where
  "kDeltaVersionOffset = length kDeltaMagic"

definition kDeltaVersionSize :: nat where
  "kDeltaVersionSize = 8"

definition kDeltaManifestSizeOffset :: nat where
  "kDeltaManifestSizeOffset = kDeltaVersionOffset + kDeltaVersionSize"

definition kDeltaManifestSizeSize :: nat where
  "kDeltaManifestSizeSize = 8"

definition kDeltaMetadataSignatureSizeSize :: nat where
  "kDeltaMetadataSignatureSizeSize = 4"

definition GetMetadataSignatureSizeOffset :: nat where
  "GetMetadataSignatureSizeOffset = kDeltaManifestSizeOffset + kDeltaManifestSizeSize"

definition GetManifestOffset :: nat where
  "GetManifestOffset =
     kDeltaManifestSizeOffset + kDeltaManifestSizeSize + kDeltaMetadataSignatureSizeSize"

text \<open>
  \<^verbatim>\<open>memcpy\<close> of \<open>n\<close> bytes at an offset followed by \<^verbatim>\<open>be64toh\<close> or \<^verbatim>\<open>be32toh\<close>: the
  bytes read as one big-endian unsigned number, whatever the host's byte order.
\<close>

definition from_big_endian :: "byte list \<Rightarrow> 'a::len word" where
  "from_big_endian bs = foldl (\<lambda>acc b. push_bit 8 acc OR ucast b) 0 bs"

definition be64toh_at :: "byte list \<Rightarrow> nat \<Rightarrow> uint64_t" where
  "be64toh_at payload off = from_big_endian (take 8 (drop off payload))"

definition be32toh_at :: "byte list \<Rightarrow> nat \<Rightarrow> uint32_t" where
  "be32toh_at payload off = from_big_endian (take 4 (drop off payload))"

text \<open>The members of \<^verbatim>\<open>PayloadMetadata\<close> that parsing the header writes.\<close>

record PayloadMetadata =
  major_payload_version :: uint64_t
  manifest_size :: uint64_t
  metadata_size :: uint64_t
  metadata_signature_size :: uint32_t

text \<open>
  \<^verbatim>\<open>ParsePayloadHeader(payload, size, error)\<close>. The payload is the byte list, \<open>size\<close> its
  length. The supported version range (\<^verbatim>\<open>kMinSupportedMajorPayloadVersion\<close>,
  \<^verbatim>\<open>kMaxSupportedMajorPayloadVersion\<close>, declared outside the sources) is a parameter.
  The result is the returned enum, what was stored through \<^verbatim>\<open>error\<close> (\<open>None\<close> when
  nothing was stored) and the object after the call.
\<close>

definition ParsePayloadHeader ::
  "uint64_t \<Rightarrow> uint64_t \<Rightarrow> PayloadMetadata \<Rightarrow> byte list
     \<Rightarrow> MetadataParseResult \<times> ErrorCode option \<times> PayloadMetadata" where
  "ParsePayloadHeader kMinSupported kMaxSupported this payload =
    (let size = length payload in
     if size < kDeltaManifestSizeOffset then (kInsufficientData, None, this)
     else if take (length kDeltaMagic) payload \<noteq> kDeltaMagic
       then (kParseError, Some kDownloadInvalidMetadataMagicString, this)
     else
       let manifest_offset = GetManifestOffset in
       if size < manifest_offset then (kInsufficientData, None, this)
       else
         let this1 = this\<lparr>major_payload_version := be64toh_at payload kDeltaVersionOffset\<rparr> in
         if major_payload_version this1 < kMinSupported
            \<or> major_payload_version this1 > kMaxSupported
           then (kParseError, Some kUnsupportedMajorPayloadVersion, this1)
         else
           let this2 = this1\<lparr>manifest_size := be64toh_at payload kDeltaManifestSizeOffset\<rparr>;
               this3 = this2\<lparr>metadata_size := of_nat manifest_offset + manifest_size this2\<rparr> in
           if metadata_size this3 < manifest_size this3
             then (kParseError, Some kDownloadInvalidMetadataSize, this3)
           else
             let this4 = this3\<lparr>metadata_signature_size :=
                                 be32toh_at payload GetMetadataSignatureSizeOffset\<rparr> in
             if metadata_size this4 + ucast (metadata_signature_size this4) < metadata_size this4
               then (kParseError, Some kDownloadInvalidMetadataSize, this4)
             else (kParseSuccess, None, this4))"

section \<open>common/boot\_control\_interface.h\<close>

type_synonym Slot = uint32_t

definition UINT_MAX :: uint32_t where
  "UINT_MAX = 0xFFFFFFFF"

definition kInvalidSlot :: Slot where
  "kInvalidSlot = UINT_MAX"

text \<open>
  \<^verbatim>\<open>SlotName\<close>: \<^verbatim>\<open>std::string(1, 'A' + slot)\<close> converts the sum to one \<^verbatim>\<open>char\<close>.
\<close>

definition SlotName :: "Slot \<Rightarrow> string" where
  "SlotName slot =
     (if slot = kInvalidSlot then ''INVALID''
      else if slot < 26 then [char_of (of_char CHR ''A'' + unat slot)]
      else ''TOO_BIG'')"


section \<open>common/utils.cc: ReadAll\<close>

text \<open>
  The values of \<^verbatim>\<open>errno\<close> that matter to \<^verbatim>\<open>ReadAll\<close>, and two that stand for every
  other failure of \<^verbatim>\<open>read\<close>.
\<close>

datatype Errno = EINTR | EAGAIN | EWOULDBLOCK | EIO | EBADF

text \<open>
  A file descriptor is modelled by the script of what its next calls of \<^verbatim>\<open>read\<close> meet:
  a chunk of bytes that is ready, or a failure with an \<^verbatim>\<open>errno\<close>. A read of \<open>n\<close> bytes
  from a ready chunk returns at most \<open>n\<close> of its bytes and leaves the rest of the chunk for
  the next call (a short read returns fewer than asked); an empty chunk and the end of the
  script are the end of the file, where \<^verbatim>\<open>read\<close> returns 0.
\<close>

datatype FdEvent = Data "byte list" | Fail Errno

type_synonym FileDescriptor = "FdEvent list"

text \<open>The result of one \<^verbatim>\<open>read\<close>: the bytes stored (\<open>rc\<close> is their number), or \<open>rc = -1\<close> and \<^verbatim>\<open>errno\<close>.\<close>

datatype ReadResult = Bytes "byte list" | Failed Errno

fun sys_read :: "FileDescriptor \<Rightarrow> nat \<Rightarrow> ReadResult \<times> FileDescriptor" where
  "sys_read [] n = (Bytes [], [])"
| "sys_read (Fail e # rest) n = (Failed e, rest)"
| "sys_read (Data bs # rest) n =
     (Bytes (take n bs), if length bs \<le> n then rest else Data (drop n bs) # rest)"

lemma sys_read_Failed_shorter:
  "sys_read fd n = (Failed e, fd') \<Longrightarrow> length fd' < length fd"
  by (cases "(fd, n)" rule: sys_read.cases) (auto split: if_splits)

text \<open>\<^verbatim>\<open>HANDLE_EINTR(read(...))\<close>: the call is repeated while it fails with \<^verbatim>\<open>EINTR\<close>.\<close>

function HANDLE_EINTR_read :: "FileDescriptor \<Rightarrow> nat \<Rightarrow> ReadResult \<times> FileDescriptor" where
  "HANDLE_EINTR_read fd n =
     (case sys_read fd n of
        (Failed EINTR, fd') \<Rightarrow> HANDLE_EINTR_read fd' n
      | r \<Rightarrow> r)"
  by pat_completeness auto
termination
  by (relation "measure (\<lambda>(fd, n). length fd)")
     (auto dest: sys_read_Failed_shorter [OF sym])

declare HANDLE_EINTR_read.simps [simp del]

text \<open>What \<^verbatim>\<open>ReadAll\<close> leaves behind: its return value, \<^verbatim>\<open>*out_bytes_read\<close>, \<^verbatim>\<open>*eof\<close>,
  the bytes stored in \<^verbatim>\<open>buf\<close>, and the descriptor.\<close>

record ReadAllResult =
  ok :: bool
  out_bytes_read :: nat
  eof :: bool
  buf :: "byte list"
  fd_after :: FileDescriptor

definition fd_size :: "FileDescriptor \<Rightarrow> nat" where
  "fd_size fd = sum_list (map (\<lambda>e. case e of Data bs \<Rightarrow> Suc (length bs) | Fail _ \<Rightarrow> 1) fd)"

lemma sys_read_consumes:
  "sys_read fd n = (Bytes bs, fd') \<Longrightarrow> bs \<noteq> [] \<Longrightarrow> fd_size fd' < fd_size fd"
  by (cases "(fd, n)" rule: sys_read.cases) (auto simp: fd_size_def split: if_splits)

lemma sys_read_fd_size: "fd_size (snd (sys_read fd n)) \<le> fd_size fd"
  by (cases "(fd, n)" rule: sys_read.cases) (auto simp: fd_size_def)

lemma HANDLE_EINTR_read_consumes:
  "HANDLE_EINTR_read fd n = (Bytes bs, fd') \<Longrightarrow> bs \<noteq> [] \<Longrightarrow> fd_size fd' < fd_size fd"
proof (induction fd n rule: HANDLE_EINTR_read.induct)
  case (1 fd n)
  obtain r fd1 where r: "sys_read fd n = (r, fd1)" by (cases "sys_read fd n")
  show ?case
  proof (cases "r = Failed EINTR")
    case True
    with r "1.prems" have "HANDLE_EINTR_read fd1 n = (Bytes bs, fd')"
      by (simp add: HANDLE_EINTR_read.simps [of fd])
    with "1.IH" r True "1.prems" have "fd_size fd' < fd_size fd1" by simp
    moreover have "fd_size fd1 \<le> fd_size fd" using sys_read_fd_size [of fd n] r by simp
    ultimately show ?thesis by simp
  next
    case False
    with r "1.prems" have "sys_read fd n = (Bytes bs, fd')"
      by (simp add: HANDLE_EINTR_read.simps [of fd] split: ReadResult.splits Errno.splits)
    then show ?thesis using "1.prems"(2) by (rule sys_read_consumes)
  qed
qed

text \<open>
  The \<^verbatim>\<open>while (bytes_read < count)\<close> loop of \<^verbatim>\<open>ReadAll\<close>, from the state
  \<open>(fd, bytes_read, buf)\<close>. A read that returns bytes consumes them from the descriptor,
  which is why the loop ends.
\<close>

function ReadAll_loop :: "FileDescriptor \<Rightarrow> nat \<Rightarrow> nat \<Rightarrow> byte list \<Rightarrow> ReadAllResult" where
  "ReadAll_loop fd count bytes_read c_buf =
     (if bytes_read < count then
        (case HANDLE_EINTR_read fd (count - bytes_read) of
           (Failed e, fd') \<Rightarrow>
             if e \<noteq> EWOULDBLOCK \<and> e \<noteq> EAGAIN
             then \<lparr>ok = False, out_bytes_read = bytes_read, eof = False, buf = c_buf, fd_after = fd'\<rparr>
             else \<lparr>ok = True, out_bytes_read = bytes_read, eof = False, buf = c_buf, fd_after = fd'\<rparr>
         | (Bytes bs, fd') \<Rightarrow>
             if length bs = 0
             then \<lparr>ok = True, out_bytes_read = bytes_read, eof = True, buf = c_buf, fd_after = fd'\<rparr>
             else ReadAll_loop fd' count (bytes_read + length bs) (c_buf @ bs))
      else \<lparr>ok = True, out_bytes_read = bytes_read, eof = False, buf = c_buf, fd_after = fd\<rparr>)"
  by pat_completeness auto
termination
  by (relation "measure (\<lambda>(fd, count, bytes_read, c_buf). fd_size fd)")
     (auto dest: HANDLE_EINTR_read_consumes [OF sym])

declare ReadAll_loop.simps [simp del]

definition ReadAll :: "FileDescriptor \<Rightarrow> nat \<Rightarrow> ReadAllResult" where
  "ReadAll fd count = ReadAll_loop fd count 0 []"

section \<open>payload\_consumer/postinstall\_runner\_action.cc\<close>

subsection \<open>Data\<close>

text \<open>
  A \<^verbatim>\<open>double\<close> as \<^verbatim>\<open>sscanf\<close> can deliver it: a finite value, an infinity or a NaN. The
  finite values are taken among the reals.
\<close>

datatype double = Finite real | PosInf | NegInf | NaN

text \<open>The fields of \<^verbatim>\<open>InstallPlan::Partition\<close> and \<^verbatim>\<open>InstallPlan\<close> that the runner reads.\<close>

record Partition =
  name :: string
  readonly_target_path :: string
  filesystem_type :: string
  postinstall_path :: string
  run_postinstall :: bool
  postinstall_optional :: bool

record InstallPlan =
  download_url :: string
  target_slot :: Slot
  partitions :: "Partition list"
  switch_slot_on_reboot :: bool
  run_post_install :: bool
  powerwash_required :: bool

text \<open>
  The calls the runner makes on its collaborators (hardware, boot control, dynamic
  partition control, delegate, processor, subprocess, file system), in the order made.
\<close>

datatype Call =
    MapAllPartitions
  | SchedulePowerwash
  | CancelPowerwash
  | ProgressUpdate real
  | UnmountFilesystem string
  | DeleteFile string
  | SetBlockDeviceReadOnly string bool
  | MountFilesystem string string string string
  | ExecFlags "string list"
  | FinishUpdate bool
  | SetActiveBootSlot Slot
  | SetWarmReset bool
  | SetVbmetaDigestForInactiveSlot bool
  | SetOutputObject
  | ActionComplete ErrorCode

text \<open>
  What lies outside the runner. Build-time constants (\<^verbatim>\<open>__ANDROID__\<close>,
  \<^verbatim>\<open>constants::kIsRecovery\<close>, \<^verbatim>\<open>kPrefsManifestBytes\<close>); the answers of the collaborators,
  each a function of the number of calls made so far (so that the same call may be
  answered differently later) and of the call's arguments; the library functions
  \<^verbatim>\<open>base::FilePath::IsAbsolute\<close>, \<^verbatim>\<open>base::FilePath::Append\<close> and
  \<^verbatim>\<open>sscanf(line, "global_progress %lf", &frac)\<close> (\<open>None\<close> when it does not return 1);
  and the rounding of an exact arithmetic result to the nearest \<^verbatim>\<open>double\<close>. The exponent
  range of \<^verbatim>\<open>double\<close> is not modelled: the weights are counts of partitions.
\<close>

record Environment =
  is_android :: bool
  kIsRecovery :: bool
  kPrefsManifestBytes :: string
  VirtualAbFeatureFlag_IsEnabled :: bool
  HasOutputPipe :: bool
  MapAllPartitions_returns :: "nat \<Rightarrow> bool"
  SchedulePowerwash_returns :: "nat \<Rightarrow> bool"
  FileExists_returns :: "nat \<Rightarrow> string \<Rightarrow> bool"
  IsMountpoint_returns :: "nat \<Rightarrow> string \<Rightarrow> bool"
  SetBlockDeviceReadOnly_returns :: "nat \<Rightarrow> string \<Rightarrow> bool"
  GetPartitionMountOptions :: "string \<Rightarrow> string"
  MountFilesystem_returns :: "nat \<Rightarrow> string \<Rightarrow> string \<Rightarrow> string \<Rightarrow> bool"
  UnmountFilesystem_returns :: "nat \<Rightarrow> string \<Rightarrow> bool"
  ExecFlags_returns :: "nat \<Rightarrow> string list \<Rightarrow> nat"
  GetPipeFd_returns :: "nat \<Rightarrow> int"
  FinishUpdate_returns :: "nat \<Rightarrow> bool \<Rightarrow> bool"
  SetActiveBootSlot_returns :: "nat \<Rightarrow> Slot \<Rightarrow> bool"
  FilePath_IsAbsolute :: "string \<Rightarrow> bool"
  FilePath_Append :: "string \<Rightarrow> string \<Rightarrow> string"
  sscanf_global_progress :: "string \<Rightarrow> double option"
  round_to_double :: "real \<Rightarrow> real"

text \<open>
  The members of \<^verbatim>\<open>PostinstallRunnerAction\<close>. \<open>delegate\<close> says whether \<^verbatim>\<open>delegate_\<close> is
  set, \<open>progress_controller\<close> whether the status descriptor is being watched, and \<open>calls\<close>
  is the record of the calls made so far. Suspending, resuming and terminating the child
  are not modelled.
\<close>

record PostinstallRunnerAction =
  install_plan :: InstallPlan
  fs_mount_dir :: string
  partition_weight :: "real list"
  total_weight :: real
  accumulated_weight :: real
  delegate :: bool
  current_partition :: nat
  current_command :: nat
  progress_fd :: int
  progress_controller :: bool
  progress_buffer :: string
  powerwash_scheduled :: bool
  calls :: "Call list"

definition kPostinstallStatusFd :: nat where
  "kPostinstallStatusFd = 3"

definition call :: "Call \<Rightarrow> PostinstallRunnerAction \<Rightarrow> PostinstallRunnerAction" where
  "call c this = this\<lparr>calls := calls this @ [c]\<rparr>"

definition clock :: "PostinstallRunnerAction \<Rightarrow> nat" where
  "clock this = length (calls this)"

text \<open>\<^verbatim>\<open>std::to_string\<close> of an unsigned number: its decimal digits.\<close>

function to_string :: "nat \<Rightarrow> string" where
  "to_string n =
     (if n < 10 then [char_of (of_char CHR ''0'' + n)]
      else to_string (n div 10) @ [char_of (of_char CHR ''0'' + n mod 10)])"
  by pat_completeness auto
termination
  by (relation "measure id") auto

declare to_string.simps [simp del]

subsection \<open>Mounting and cleaning up\<close>

definition EnsureUnmounted :: "Environment \<Rightarrow> PostinstallRunnerAction \<Rightarrow> PostinstallRunnerAction" where
  "EnsureUnmounted env this =
     (if IsMountpoint_returns env (clock this) (fs_mount_dir this)
      then call (UnmountFilesystem (fs_mount_dir this)) this
      else this)"

text \<open>
  \<^verbatim>\<open>MountPartition\<close>: its result and the runner afterwards. The mount is read-only
  (\<^verbatim>\<open>MS_RDONLY\<close>); the recorded call carries device, mount point, file system type and
  mount options.
\<close>

definition MountPartition ::
  "Environment \<Rightarrow> Partition \<Rightarrow> PostinstallRunnerAction \<Rightarrow> bool \<times> PostinstallRunnerAction" where
  "MountPartition env part this =
     (let mountable_device = readonly_target_path part in
      if \<not> FileExists_returns env (clock this) mountable_device then (False, this)
      else if \<not> FileExists_returns env (clock this) (fs_mount_dir this) then (False, this)
      else
        let this1 = EnsureUnmounted env this;
            this2 = (if is_android env
                     then call (SetBlockDeviceReadOnly mountable_device True) this1
                     else this1) in
        if is_android env \<and> \<not> SetBlockDeviceReadOnly_returns env (clock this1) mountable_device
          then (False, this2)
        else
          (MountFilesystem_returns env (clock this2) mountable_device (fs_mount_dir this2)
             (filesystem_type part),
           call (MountFilesystem mountable_device (fs_mount_dir this2)
                   (filesystem_type part)
                   (GetPartitionMountOptions env (name part))) this2))"

definition Cleanup :: "Environment \<Rightarrow> PostinstallRunnerAction \<Rightarrow> PostinstallRunnerAction" where
  "Cleanup env this =
     (let this1 = call (UnmountFilesystem (fs_mount_dir this)) this;
          this2 = (if \<not> is_android env then call (DeleteFile (fs_mount_dir this1)) this1
                   else this1) in
      this2\<lparr>progress_fd := - 1, progress_controller := False, progress_buffer := []\<rparr>)"

subsection \<open>Progress\<close>

text \<open>
  The two statements \<^verbatim>\<open>if (!std::isfinite(frac) || frac < 0) frac = 0;\<close> and
  \<^verbatim>\<open>if (frac > 1) frac = 1;\<close> of \<^verbatim>\<open>ReportProgress\<close>.
\<close>

fun clamp_fraction :: "double \<Rightarrow> real" where
  "clamp_fraction (Finite x) =
     (let fraction = (if x < 0 then 0 else x) in if fraction > 1 then 1 else fraction)"
| "clamp_fraction PosInf = 0"
| "clamp_fraction NegInf = 0"
| "clamp_fraction NaN = 0"

definition ReportProgress ::
  "Environment \<Rightarrow> double \<Rightarrow> PostinstallRunnerAction \<Rightarrow> PostinstallRunnerAction" where
  "ReportProgress env fraction this =
     (if \<not> delegate this then this
      else if current_partition this \<ge> length (partition_weight this) \<or> total_weight this = 0
        then call (ProgressUpdate 1) this
      else
        let fraction1 = clamp_fraction fraction;
            postinst_action_progress =
              round_to_double env
                (round_to_double env
                   (accumulated_weight this
                    + round_to_double env
                        (partition_weight this ! current_partition this * fraction1))
                 / total_weight this) in
        call (ProgressUpdate postinst_action_progress) this)"

definition ProcessProgressLine ::
  "Environment \<Rightarrow> string \<Rightarrow> PostinstallRunnerAction \<Rightarrow> bool \<times> PostinstallRunnerAction" where
  "ProcessProgressLine env line this =
     (case sscanf_global_progress env line of
        Some fraction \<Rightarrow>
          if fraction \<noteq> NaN then (True, ReportProgress env fraction this) else (False, this)
      | None \<Rightarrow> (False, this))"

subsection \<open>Completion\<close>

text \<open>
  \<^verbatim>\<open>CompletePostinstall\<close>. The block under \<^verbatim>\<open>DEFER\<close> runs when the function returns and
  sees \<^verbatim>\<open>error_code\<close> as the body left it.
\<close>

definition CompletePostinstall ::
  "Environment \<Rightarrow> ErrorCode \<Rightarrow> PostinstallRunnerAction \<Rightarrow> PostinstallRunnerAction" where
  "CompletePostinstall env error_code this =
     (let plan = install_plan this;
          (error_code1, this1) =
            (if error_code = kSuccess then
               if switch_slot_on_reboot plan then
                 let this_a = call (FinishUpdate (powerwash_required plan)) this in
                 if \<not> FinishUpdate_returns env (clock this) (powerwash_required plan)
                   then (kPostinstallRunnerError, this_a)
                 else
                   let this_b = call (SetActiveBootSlot (target_slot plan)) this_a in
                   if \<not> SetActiveBootSlot_returns env (clock this_a) (target_slot plan)
                     then (kPostinstallRunnerError, this_b)
                   else (kSuccess,
                         call (SetVbmetaDigestForInactiveSlot False)
                           (call (SetWarmReset True) this_b))
               else (kUpdatedButNotActive, this)
             else (error_code, this));
          this2 = (if HasOutputPipe env then call SetOutputObject this1 else this1);
          this3 = (if error_code1 \<noteq> kSuccess \<and> error_code1 \<noteq> kUpdatedButNotActive
                      \<and> powerwash_scheduled this2
                   then call CancelPowerwash this2 else this2) in
      call (ActionComplete error_code1) this3)"

subsection \<open>The partitions, one after the other\<close>

definition remaining :: "PostinstallRunnerAction \<Rightarrow> nat" where
  "remaining this =
     max (length (partitions (install_plan this))) (length (partition_weight this))
       - current_partition this"

text \<open>
  \<^verbatim>\<open>PerformPartitionPostinstall\<close>, the rest of its body from the \<^verbatim>\<open>while\<close> loop on
  (\<open>PerformPartitionPostinstall_loop\<close>: one round of the loop, or what follows the loop),
  and \<^verbatim>\<open>CompletePartitionPostinstall\<close>, which call one another. The result is \<open>None\<close>
  where the code would index \<^verbatim>\<open>install_plan_.partitions\<close> or \<^verbatim>\<open>partition_weight_\<close>
  out of range. When the child was launched the runner returns to the event loop with the
  status descriptor watched; logging (\<^verbatim>\<open>LogBuildInfoForPartition\<close>,
  \<^verbatim>\<open>utils::GetFileFormat\<close>) is left out.
\<close>

function PerformPartitionPostinstall ::
    "Environment \<Rightarrow> PostinstallRunnerAction \<Rightarrow> PostinstallRunnerAction option"
  and PerformPartitionPostinstall_loop ::
    "Environment \<Rightarrow> PostinstallRunnerAction \<Rightarrow> PostinstallRunnerAction option"
  and CompletePartitionPostinstall ::
    "Environment \<Rightarrow> int \<Rightarrow> PostinstallRunnerAction \<Rightarrow> PostinstallRunnerAction option"
where
  "PerformPartitionPostinstall env this =
     (if download_url (install_plan this) = []
      then Some (CompletePostinstall env kSuccess this)
      else PerformPartitionPostinstall_loop env this)"
| "PerformPartitionPostinstall_loop env this =
     (if current_partition this < length (partitions (install_plan this))
         \<and> \<not> run_postinstall (partitions (install_plan this) ! current_partition this)
      then
        if postinstall_path (partitions (install_plan this) ! current_partition this) \<noteq> []
        then
          if \<not> fst (MountPartition env
                       (partitions (install_plan this) ! current_partition this) this)
          then Some (CompletePostinstall env kPostInstallMountError
                       (snd (MountPartition env
                               (partitions (install_plan this) ! current_partition this) this)))
          else if \<not> UnmountFilesystem_returns env
                       (clock (snd (MountPartition env
                          (partitions (install_plan this) ! current_partition this) this)))
                       (fs_mount_dir this)
          then CompletePartitionPostinstall env 1
                 (call (UnmountFilesystem (fs_mount_dir this))
                    (snd (MountPartition env
                            (partitions (install_plan this) ! current_partition this) this)))
          else PerformPartitionPostinstall_loop env
                 ((call (UnmountFilesystem (fs_mount_dir this))
                     (snd (MountPartition env
                             (partitions (install_plan this) ! current_partition this) this)))
                  \<lparr>current_partition := current_partition this + 1\<rparr>)
        else PerformPartitionPostinstall_loop env
               (this\<lparr>current_partition := current_partition this + 1\<rparr>)
      else if current_partition this = length (partitions (install_plan this))
        then Some (CompletePostinstall env kSuccess this)
      else if current_partition this > length (partitions (install_plan this))
        then None
      else
        let part = partitions (install_plan this) ! current_partition this;
            mounted = MountPartition env part this;
            this1 = snd mounted in
        if \<not> fst mounted then Some (CompletePostinstall env kPostInstallMountError this1)
        else if FilePath_IsAbsolute env (postinstall_path part)
          then Some (CompletePostinstall env kPostinstallRunnerError this1)
        else
          let abs_path = FilePath_Append env (fs_mount_dir this1) (postinstall_path part) in
          if \<not> prefix (fs_mount_dir this1) abs_path
            then Some (CompletePostinstall env kPostinstallRunnerError this1)
          else
            let command =
                  [abs_path, to_string (unat (target_slot (install_plan this1))),
                   to_string kPostinstallStatusFd]
                  @ (if length (partitions (install_plan this1)) = 1
                        \<and> \<not> switch_slot_on_reboot (install_plan this1)
                        \<and> prefix (kPrefsManifestBytes env) (download_url (install_plan this1))
                     then [''1''] else []);
                this2 = (call (ExecFlags command) this1)
                          \<lparr>current_command := ExecFlags_returns env (clock this1) command\<rparr> in
            if current_command this2 = 0
              then CompletePartitionPostinstall env 1 this2
            else
              Some (this2\<lparr>progress_fd := GetPipeFd_returns env (clock this2),
                          progress_controller := True\<rparr>))"
| "CompletePartitionPostinstall env return_code this =
     (let this1 = Cleanup env (this\<lparr>current_command := 0\<rparr>);
          error_code = kPostinstallRunnerError;
          error_code = (if return_code = 3 then kPostinstallBootedFromFirmwareB else error_code);
          error_code = (if return_code = 4 then kPostinstallFirmwareRONotUpdatable
                        else error_code) in
      if return_code \<noteq> 0
         \<and> current_partition this1 \<ge> length (partitions (install_plan this1))
        then None
      else if return_code \<noteq> 0
         \<and> \<not> postinstall_optional (partitions (install_plan this1) ! current_partition this1)
        then Some (CompletePostinstall env error_code this1)
      else if current_partition this1 \<ge> length (partition_weight this1)
        then None
      else
        PerformPartitionPostinstall env
          (ReportProgress env (Finite 0)
             (this1\<lparr>accumulated_weight :=
                       round_to_double env
                         (accumulated_weight this1
                          + partition_weight this1 ! current_partition this1),
                     current_partition := current_partition this1 + 1\<rparr>)))"
  by pat_completeness auto
termination
  by (relation "measure (\<lambda>x. case x of
          Inl (env, this) \<Rightarrow> 3 * remaining this + 2
        | Inr (Inl (env, this)) \<Rightarrow> 3 * remaining this + 1
        | Inr (Inr (env, return_code, this)) \<Rightarrow> 3 * remaining this)")
     (auto simp: remaining_def call_def Cleanup_def ReportProgress_def MountPartition_def
        EnsureUnmounted_def Let_def split: if_splits)

declare PerformPartitionPostinstall.simps [simp del]
  PerformPartitionPostinstall_loop.simps [simp del]
  CompletePartitionPostinstall.simps [simp del]

subsection \<open>Starting the action\<close>

text \<open>
  The loop of \<^verbatim>\<open>PerformAction\<close> that initialises the weights, over the partitions from
  the current one on: the partitions as the loop leaves them, their weights, and
  \<^verbatim>\<open>total_weight_\<close>.
\<close>

fun InitPartitionWeights ::
  "(real \<Rightarrow> real) \<Rightarrow> bool \<Rightarrow> Partition list \<Rightarrow> real \<Rightarrow> Partition list \<times> real list \<times> real" where
  "InitPartitionWeights rnd run_post_install_flag [] total_w = ([], [], total_w)"
| "InitPartitionWeights rnd run_post_install_flag (part # rest) total_w =
     (let part1 = (if \<not> run_post_install_flag \<and> postinstall_optional part
                        then part\<lparr>run_postinstall := False\<rparr> else part);
          weight = (if run_postinstall part1 then 1 else 0);
          (rest1, weights, total_w1) =
             InitPartitionWeights rnd run_post_install_flag rest (rnd (total_w + weight)) in
      (part1 # rest1, weight # weights, total_w1))"

definition PerformAction ::
  "Environment \<Rightarrow> InstallPlan \<Rightarrow> PostinstallRunnerAction \<Rightarrow> PostinstallRunnerAction option" where
  "PerformAction env input_object this =
     (let this0 = this\<lparr>install_plan := input_object\<rparr>;
          map_all = (VirtualAbFeatureFlag_IsEnabled env \<and> \<not> kIsRecovery env
                     \<and> (partitions (install_plan this0) \<noteq> []
                          \<or> switch_slot_on_reboot (install_plan this0)));
          this1 = (if map_all then call MapAllPartitions this0 else this0) in
      if map_all \<and> \<not> MapAllPartitions_returns env (clock this0)
        then Some (CompletePostinstall env kPostInstallMountError this1)
      else
        let this2 = (if powerwash_required (install_plan this1)
                     then call SchedulePowerwash this1 else this1) in
        if powerwash_required (install_plan this1) \<and> \<not> SchedulePowerwash_returns env (clock this1)
          then Some (CompletePostinstall env kPostinstallPowerwashError this2)
        else
          let this3 = (if powerwash_required (install_plan this1)
                       then this2\<lparr>powerwash_scheduled := True\<rparr> else this2);
              (partitions1, weights, total_w) =
                 InitPartitionWeights (round_to_double env) (run_post_install (install_plan this3))
                   (partitions (install_plan this3)) 0;
              this4 = this3\<lparr>install_plan := (install_plan this3)\<lparr>partitions := partitions1\<rparr>,
                             partition_weight := weights,
                             total_weight := total_w,
                             accumulated_weight := 0\<rparr> in
          PerformPartitionPostinstall env (ReportProgress env (Finite 0) this4))"

subsection \<open>The event loop\<close>

text \<open>
  After \<^verbatim>\<open>PerformAction\<close> the runner is driven by the event loop: a line arrives on
  the status descriptor (only while the descriptor is watched), or the child exits and
  \<^verbatim>\<open>Subprocess\<close> calls \<^verbatim>\<open>CompletePartitionPostinstall\<close> with its exit code (only while a
  child runs).
\<close>

datatype Event = StatusLine string | ChildExit int

definition handle_event ::
  "Environment \<Rightarrow> Event \<Rightarrow> PostinstallRunnerAction \<Rightarrow> PostinstallRunnerAction option" where
  "handle_event env ev this =
     (case ev of
        StatusLine line \<Rightarrow>
          if progress_controller this then Some (snd (ProcessProgressLine env line this))
          else Some this
      | ChildExit return_code \<Rightarrow>
          if current_command this \<noteq> 0 then CompletePartitionPostinstall env return_code this
          else Some this)"

fun handle_events ::
  "Environment \<Rightarrow> Event list \<Rightarrow> PostinstallRunnerAction \<Rightarrow> PostinstallRunnerAction option" where
  "handle_events env [] this = Some this"
| "handle_events env (ev # evs) this =
     (case handle_event env ev this of
        None \<Rightarrow> None
      | Some this1 \<Rightarrow> handle_events env evs this1)"

text \<open>
  A runner as its constructor leaves it, for a mount directory and with or without a
  delegate: the members have the initial values of the class declaration (no partition
  done, no child, no powerwash scheduled, no weights), and the constructor makes sure the
  mount directory is unmounted.
\<close>

definition empty_plan :: InstallPlan where
  "empty_plan = \<lparr>download_url = [], target_slot = 0, partitions = [],
                  switch_slot_on_reboot = False, run_post_install = True,
                  powerwash_required = False\<rparr>"

definition new_runner :: "Environment \<Rightarrow> string \<Rightarrow> bool \<Rightarrow> PostinstallRunnerAction" where
  "new_runner env mount_dir has_delegate =
     EnsureUnmounted env
       \<lparr>install_plan = empty_plan, fs_mount_dir = mount_dir, partition_weight = [],
        total_weight = 0, accumulated_weight = 0, delegate = has_delegate,
        current_partition = 0, current_command = 0, progress_fd = - 1,
        progress_controller = False, progress_buffer = [], powerwash_scheduled = False,
        calls = []\<rparr>"

text \<open>A whole run: the action is started on an install plan, then the events arrive.\<close>

definition run ::
  "Environment \<Rightarrow> string \<Rightarrow> bool \<Rightarrow> InstallPlan \<Rightarrow> Event list \<Rightarrow> PostinstallRunnerAction option" where
  "run env mount_dir has_delegate plan evs =
     (case PerformAction env plan (new_runner env mount_dir has_delegate) of
        None \<Rightarrow> None
      | Some this \<Rightarrow> handle_events env evs this)"

section \<open>Invariants of the runner\<close>

text \<open>The weight \<^verbatim>\<open>PerformAction\<close> gives a partition, and the sum as the code adds it up.\<close>

definition weight_of :: "Partition \<Rightarrow> real" where
  "weight_of part = (if run_postinstall part then 1 else 0)"

definition rounded_sum :: "(real \<Rightarrow> real) \<Rightarrow> real list \<Rightarrow> real" where
  "rounded_sum rnd ws = foldl (\<lambda>t w. rnd (t + w)) 0 ws"

text \<open>
  What is used of rounding to the nearest \<^verbatim>\<open>double\<close>: it is monotone, it leaves 0 and 1
  as they are, and it leaves a rounded value as it is.
\<close>

definition rounding :: "(real \<Rightarrow> real) \<Rightarrow> bool" where
  "rounding rnd \<longleftrightarrow>
     (\<forall>x y. x \<le> y \<longrightarrow> rnd x \<le> rnd y) \<and> rnd 0 = 0 \<and> rnd 1 = 1 \<and> (\<forall>x. rnd (rnd x) = rnd x)"

text \<open>
  A call that is neither the cancelling of the powerwash nor the completion of the action,
  and if it is a progress update carries a value in the unit interval (as far as the
  arithmetic of the environment rounds as it should).
\<close>

fun quiet :: "Environment \<Rightarrow> Call \<Rightarrow> bool" where
  "quiet env CancelPowerwash = False"
| "quiet env (ActionComplete error_code) = False"
| "quiet env (ProgressUpdate v) = (rounding (round_to_double env) \<longrightarrow> 0 \<le> v \<and> v \<le> 1)"
| "quiet env c = True"

definition consistent :: "Environment \<Rightarrow> PostinstallRunnerAction \<Rightarrow> bool" where
  "consistent env this \<longleftrightarrow>
     partition_weight this = map weight_of (partitions (install_plan this))
     \<and> total_weight this = rounded_sum (round_to_double env) (partition_weight this)
     \<and> (rounding (round_to_double env) \<longrightarrow>
           0 \<le> accumulated_weight this
           \<and> accumulated_weight this
               \<le> rounded_sum (round_to_double env)
                    (take (current_partition this) (partition_weight this)))
     \<and> current_partition this \<le> length (partitions (install_plan this))
     \<and> list_all (quiet env) (calls this)
     \<and> (powerwash_scheduled this \<longrightarrow>
           powerwash_required (install_plan this) \<and> SchedulePowerwash \<in> set (calls this))"

definition idle :: "PostinstallRunnerAction \<Rightarrow> bool" where
  "idle this \<longleftrightarrow> current_command this = 0 \<and> \<not> progress_controller this"

text \<open>The runner waits for its child: one runs, for a partition of the plan.\<close>

definition waiting :: "Environment \<Rightarrow> PostinstallRunnerAction \<Rightarrow> bool" where
  "waiting env this \<longleftrightarrow>
     consistent env this \<and> current_command this \<noteq> 0 \<and> progress_controller this
     \<and> current_partition this < length (partitions (install_plan this))"

text \<open>
  The action is complete: the last call is the completion, before it comes the cancelling
  of the powerwash exactly when one was scheduled and the code is an error, and no call
  before these is one of the two.
\<close>

definition completed :: "Environment \<Rightarrow> PostinstallRunnerAction \<Rightarrow> bool" where
  "completed env this \<longleftrightarrow>
     idle this
     \<and> (powerwash_scheduled this \<longrightarrow>
           powerwash_required (install_plan this) \<and> SchedulePowerwash \<in> set (calls this))
     \<and> (\<exists>pre error_code.
           calls this =
             pre @ (if powerwash_scheduled this \<and> error_code \<noteq> kSuccess
                       \<and> error_code \<noteq> kUpdatedButNotActive
                    then [CancelPowerwash] else [])
                 @ [ActionComplete error_code]
           \<and> list_all (quiet env) pre)"

definition settled :: "Environment \<Rightarrow> PostinstallRunnerAction option \<Rightarrow> bool" where
  "settled env res \<longleftrightarrow> (\<exists>this. res = Some this \<and> (waiting env this \<or> completed env this))"

section \<open>Concrete inputs\<close>

text \<open>
  A scanner that knows five lines, answering as \<^verbatim>\<open>sscanf\<close> with \<^verbatim>\<open>"global_progress %lf"\<close>
  does on them.
\<close>

definition sample_sscanf :: "string \<Rightarrow> double option" where
  "sample_sscanf line =
     (if line = ''global_progress 0.5'' then Some (Finite (1 / 2))
      else if line = ''global_progress 7'' then Some (Finite 7)
      else if line = ''global_progress -1'' then Some (Finite (- 1))
      else if line = ''global_progress inf'' then Some PosInf
      else if line = ''global_progress nan'' then Some NaN
      else None)"

text \<open>Rounding to the nearest multiple of a quarter, halves upwards.\<close>

definition round_to_quarter :: "real \<Rightarrow> real" where
  "round_to_quarter x = of_int \<lfloor>4 * x + 1 / 2\<rfloor> / 4"

text \<open>
  An Android device on which every call succeeds: \<open>exec_pid\<close> is what \<^verbatim>\<open>ExecFlags\<close>
  returns, and the two flags are the answers of \<^verbatim>\<open>FinishUpdate\<close> and
  \<^verbatim>\<open>SetActiveBootSlot\<close>.
\<close>

definition sample_env :: "nat \<Rightarrow> bool \<Rightarrow> bool \<Rightarrow> Environment" where
  "sample_env exec_pid finish_ok set_active_ok =
     \<lparr>is_android = True, kIsRecovery = False, kPrefsManifestBytes = ''manifest-bytes'',
      VirtualAbFeatureFlag_IsEnabled = True, HasOutputPipe = False,
      MapAllPartitions_returns = (\<lambda>t. True),
      SchedulePowerwash_returns = (\<lambda>t. True),
      FileExists_returns = (\<lambda>t path. True),
      IsMountpoint_returns = (\<lambda>t path. False),
      SetBlockDeviceReadOnly_returns = (\<lambda>t device. True),
      GetPartitionMountOptions = (\<lambda>partition_name. []),
      MountFilesystem_returns = (\<lambda>t device dir fs. True),
      UnmountFilesystem_returns = (\<lambda>t dir. True),
      ExecFlags_returns = (\<lambda>t command. exec_pid),
      GetPipeFd_returns = (\<lambda>t. 5),
      FinishUpdate_returns = (\<lambda>t powerwash. finish_ok),
      SetActiveBootSlot_returns = (\<lambda>t slot. set_active_ok),
      FilePath_IsAbsolute = (\<lambda>path. path \<noteq> [] \<and> hd path = CHR ''/''),
      FilePath_Append = (\<lambda>dir path. dir @ ''/'' @ path),
      sscanf_global_progress = sample_sscanf,
      round_to_double = round_to_quarter\<rparr>"

definition sample_partition :: "string \<Rightarrow> string \<Rightarrow> bool \<Rightarrow> bool \<Rightarrow> Partition" where
  "sample_partition partition_name path runs optional =
     \<lparr>name = partition_name, readonly_target_path = ''/dev/block/'' @ partition_name,
      filesystem_type = ''ext4'', postinstall_path = path,
      run_postinstall = runs, postinstall_optional = optional\<rparr>"

definition sample_plan :: "Partition list \<Rightarrow> bool \<Rightarrow> bool \<Rightarrow> InstallPlan" where
  "sample_plan ps switch_slot powerwash =
     \<lparr>download_url = ''http://update'', target_slot = 1, partitions = ps,
      switch_slot_on_reboot = switch_slot, run_post_install = True,
      powerwash_required = powerwash\<rparr>"


text \<open>
  Three partitions with a postinstall step: one with a relative path, one that is
  optional, one with an absolute path.
\<close>

definition system_partition :: Partition where
  "system_partition = sample_partition ''system'' ''bin/postinst'' True False"

definition optional_partition :: Partition where
  "optional_partition = sample_partition ''product'' ''bin/postinst'' True True"

definition absolute_partition :: Partition where
  "absolute_partition = sample_partition ''vendor'' ''/bin/postinst'' True False"

text \<open>A partition with an absolute path whose postinstall is not to be run.\<close>

definition skipped_absolute_partition :: Partition where
  "skipped_absolute_partition = sample_partition ''vendor'' ''/bin/postinst'' False False"

text \<open>The device of \<open>sample_env\<close>, but on which no file system can be mounted.\<close>

definition unmountable_env :: Environment where
  "unmountable_env =
     (sample_env 42 True True)\<lparr>MountFilesystem_returns := (\<lambda>t device dir fs. False)\<rparr>"

text \<open>
  A runner with a delegate in the middle of a plan of one partition: \<open>pid\<close> is the
  running child (0 when none runs), \<open>k\<close> the current partition.
\<close>

definition sample_runner :: "InstallPlan \<Rightarrow> nat \<Rightarrow> nat \<Rightarrow> PostinstallRunnerAction" where
  "sample_runner plan pid k =
     \<lparr>install_plan = plan, fs_mount_dir = ''/postinstall'', partition_weight = [1],
      total_weight = 1, accumulated_weight = 0, delegate = True,
      current_partition = k, current_command = pid, progress_fd = 5,
      progress_controller = (pid \<noteq> 0), progress_buffer = [],
      powerwash_scheduled = powerwash_required plan, calls = []\<rparr>"

definition zero_metadata :: PayloadMetadata where
  "zero_metadata = \<lparr>major_payload_version = 0, manifest_size = 0, metadata_size = 0,
                     metadata_signature_size = 0\<rparr>"

text \<open>Twelve bytes that do not start with the magic.\<close>

definition bad_magic_12 :: "byte list" where
  "bad_magic_12 = [0x58, 0x58, 0x58, 0x58, 0, 0, 0, 0, 0, 0, 0, 0]"

text \<open>The magic followed by 18 zero bytes: 22 bytes in all.\<close>

definition good_magic_22 :: "byte list" where
  "good_magic_22 = kDeltaMagic @ replicate 18 0"

text \<open>A version 2 header whose manifest size is \<open>0xFFFFFFFFFFFFFFF0\<close>.\<close>

definition header_overflow :: "byte list" where
  "header_overflow =
     kDeltaMagic @ [0, 0, 0, 0, 0, 0, 0, 2,
                    0xFF, 0xFF, 0xFF, 0xFF, 0xFF, 0xFF, 0xFF, 0xF0,
                    0, 0, 0, 0]"

section \<open>Properties of the payload header parser\<close>

lemmas header_offsets =
  kDeltaVersionOffset_def kDeltaVersionSize_def kDeltaManifestSizeOffset_def
  kDeltaManifestSizeSize_def kDeltaMetadataSignatureSizeSize_def
  GetMetadataSignatureSizeOffset_def GetManifestOffset_def

lemma length_kDeltaMagic: "length kDeltaMagic = 4"
  by (simp add: kDeltaMagic_def)

text \<open>
  C1, as stated, fails: twelve bytes with a wrong magic are fewer than 20 bytes, yet the
  parser answers with an error and not with \<open>kInsufficientData\<close>; and 22 bytes that start
  with the magic are not fewer than 20 bytes, yet the parser answers \<open>kInsufficientData\<close>.
\<close>

theorem ParsePayloadHeader_not_20_counterexample:
  "length bad_magic_12 < 20
   \<and> fst (ParsePayloadHeader 2 2 zero_metadata bad_magic_12) = kParseError
   \<and> \<not> length good_magic_22 < 20
   \<and> fst (ParsePayloadHeader 2 2 zero_metadata good_magic_22) = kInsufficientData"
  by (simp add: ParsePayloadHeader_def header_offsets length_kDeltaMagic Let_def
        bad_magic_12_def good_magic_22_def kDeltaMagic_def)

text \<open>
  C1, amended: the parser returns \<open>kInsufficientData\<close> exactly when the payload has fewer
  than 12 bytes (the offset of the manifest size), or starts with the magic and has fewer
  than 24 bytes (the offset of the manifest); a payload of at least 12 bytes whose first
  4 bytes differ from the magic gives an error result with code
  \<open>kDownloadInvalidMetadataMagicString\<close>.
\<close>

theorem ParsePayloadHeader_insufficient_data:
  "(fst (ParsePayloadHeader kMinSupported kMaxSupported this payload) = kInsufficientData
      \<longleftrightarrow> length payload < 12 \<or> (take 4 payload = kDeltaMagic \<and> length payload < 24))
   \<and> (12 \<le> length payload \<and> take 4 payload \<noteq> kDeltaMagic
      \<longrightarrow> fst (ParsePayloadHeader kMinSupported kMaxSupported this payload) = kParseError
        \<and> fst (snd (ParsePayloadHeader kMinSupported kMaxSupported this payload))
            = Some kDownloadInvalidMetadataMagicString)"
  by (auto simp: ParsePayloadHeader_def header_offsets length_kDeltaMagic Let_def)

theorem ParsePayloadHeader_insufficient_data_witness:
  "12 \<le> length bad_magic_12 \<and> take 4 bad_magic_12 \<noteq> kDeltaMagic
   \<and> fst (snd (ParsePayloadHeader 2 2 zero_metadata bad_magic_12))
       = Some kDownloadInvalidMetadataMagicString"
proof -
  have h: "12 \<le> length bad_magic_12 \<and> take 4 bad_magic_12 \<noteq> kDeltaMagic"
    by (simp add: bad_magic_12_def kDeltaMagic_def)
  with ParsePayloadHeader_insufficient_data [of 2 2 zero_metadata bad_magic_12]
  show ?thesis by simp
qed

lemma add_24_wraps: "(of_nat 24 + (m::uint64_t) < m) \<longleftrightarrow> 2 ^ 64 \<le> 24 + unat m"
proof -
  have lt: "unat m < 2 ^ 64" using unsigned_less [of m] by simp
  have "unat (of_nat 24 + m) = (24 + unat m) mod 2 ^ 64"
    by (simp add: unat_word_ariths)
  moreover have "(24 + unat m) mod 2 ^ 64 < unat m \<longleftrightarrow> 2 ^ 64 \<le> 24 + unat m"
  proof (cases "24 + unat m < 2 ^ 64")
    case True then show ?thesis by simp
  next
    case False
    then have "(24 + unat m) mod 2 ^ 64 = 24 + unat m - 2 ^ 64"
      using lt by (simp add: mod_if)
    then show ?thesis using False lt by simp
  qed
  ultimately show ?thesis by (simp add: word_less_nat_alt)
qed

lemma add_signature_size_wraps:
  "((a::uint64_t) + ucast (s::uint32_t) < a) \<longleftrightarrow> 2 ^ 64 \<le> unat a + unat s"
proof -
  have lt: "unat a < 2 ^ 64" using unsigned_less [of a] by simp
  have lts: "unat s < 2 ^ 32" using unsigned_less [of s] by simp
  have us: "unat (ucast s :: uint64_t) = unat s"
    by (simp add: unsigned_ucast_eq take_bit_nat_eq_self lts [simplified]
          order_less_trans [OF lts])
  have "unat (a + ucast s) = (unat a + unat s) mod 2 ^ 64"
    by (simp add: unat_word_ariths us)
  moreover have "(unat a + unat s) mod 2 ^ 64 < unat a \<longleftrightarrow> 2 ^ 64 \<le> unat a + unat s"
  proof (cases "unat a + unat s < 2 ^ 64")
    case True then show ?thesis by simp
  next
    case False
    then have "(unat a + unat s) mod 2 ^ 64 = unat a + unat s - 2 ^ 64"
      using lt lts by (simp add: mod_if)
    then show ?thesis using False lt lts by simp
  qed
  ultimately show ?thesis by (simp add: word_less_nat_alt)
qed

text \<open>
  C2: for a payload that reaches the size arithmetic (at least 24 bytes, the right magic,
  a supported major version), if \<open>24 + manifest_size\<close> or
  \<open>metadata_size + metadata_signature_size\<close> does not fit in 64 bits the parser returns an
  error with code \<open>kDownloadInvalidMetadataSize\<close>; and when both fit it succeeds with
  \<open>metadata_size\<close> equal to the exact sum \<open>24 + manifest_size\<close>: nothing is truncated.
\<close>

theorem ParsePayloadHeader_overflow_checked:
  assumes size: "24 \<le> length payload"
    and magic: "take 4 payload = kDeltaMagic"
    and version: "kMinSupported \<le> be64toh_at payload 4" "be64toh_at payload 4 \<le> kMaxSupported"
  shows "(2 ^ 64 \<le> 24 + unat (be64toh_at payload 12)
          \<or> 2 ^ 64 \<le> 24 + unat (be64toh_at payload 12) + unat (be32toh_at payload 20)
         \<longrightarrow> fst (ParsePayloadHeader kMinSupported kMaxSupported this payload) = kParseError
           \<and> fst (snd (ParsePayloadHeader kMinSupported kMaxSupported this payload))
               = Some kDownloadInvalidMetadataSize)
       \<and> (24 + unat (be64toh_at payload 12) + unat (be32toh_at payload 20) < 2 ^ 64
         \<longrightarrow> fst (ParsePayloadHeader kMinSupported kMaxSupported this payload) = kParseSuccess
           \<and> unat (metadata_size (snd (snd (ParsePayloadHeader kMinSupported kMaxSupported this payload))))
               = 24 + unat (be64toh_at payload 12)
           \<and> manifest_size (snd (snd (ParsePayloadHeader kMinSupported kMaxSupported this payload)))
               = be64toh_at payload 12
           \<and> metadata_signature_size (snd (snd (ParsePayloadHeader kMinSupported kMaxSupported this payload)))
               = be32toh_at payload 20)"
proof -
  let ?m = "be64toh_at payload 12"
  let ?s = "be32toh_at payload 20"
  have ms: "unat (of_nat 24 + ?m) = 24 + unat ?m" if "24 + unat ?m < 2 ^ 64"
    using that by (simp add: unat_word_ariths)
  have w2: "(of_nat 24 + ?m + ucast ?s < of_nat 24 + ?m) \<longleftrightarrow> 2 ^ 64 \<le> 24 + unat ?m + unat ?s"
    if "24 + unat ?m < 2 ^ 64"
    using add_signature_size_wraps [of "of_nat 24 + ?m" ?s] ms [OF that] by simp
  show ?thesis
  proof (cases "2 ^ 64 \<le> 24 + unat ?m")
    case True
    then have "of_nat 24 + ?m < ?m" by (simp only: add_24_wraps)
    with size magic version True show ?thesis
      by (simp add: ParsePayloadHeader_def header_offsets length_kDeltaMagic Let_def not_less)
  next
    case False
    then have nw: "\<not> of_nat 24 + ?m < ?m" by (simp only: add_24_wraps not_False_eq_True)
    from False have lt: "24 + unat ?m < 2 ^ 64" by simp
    show ?thesis
    proof (cases "2 ^ 64 \<le> 24 + unat ?m + unat ?s")
      case True
      then have "of_nat 24 + ?m + ucast ?s < of_nat 24 + ?m" using w2 [OF lt] by simp
      with size magic version nw True show ?thesis
        by (simp add: ParsePayloadHeader_def header_offsets length_kDeltaMagic Let_def not_less)
    next
      case False
      then have "\<not> of_nat 24 + ?m + ucast ?s < of_nat 24 + ?m" using w2 [OF lt] by simp
      with size magic version nw False ms [OF lt] show ?thesis
        by (simp add: ParsePayloadHeader_def header_offsets length_kDeltaMagic Let_def not_less)
    qed
  qed
qed

lemma header_overflow_fields:
  "24 \<le> length header_overflow \<and> take 4 header_overflow = kDeltaMagic
   \<and> be64toh_at header_overflow 4 = 2
   \<and> be64toh_at header_overflow 12 = 0xFFFFFFFFFFFFFFF0"
  by (simp add: header_overflow_def kDeltaMagic_def be64toh_at_def from_big_endian_def)

theorem ParsePayloadHeader_overflow_checked_witness:
  "24 \<le> length header_overflow \<and> take 4 header_overflow = kDeltaMagic
   \<and> (2::uint64_t) \<le> be64toh_at header_overflow 4
   \<and> be64toh_at header_overflow 4 \<le> (2::uint64_t)
   \<and> (2::nat) ^ 64 \<le> 24 + unat (be64toh_at header_overflow 12)
   \<and> fst (ParsePayloadHeader 2 2 zero_metadata header_overflow) = kParseError
   \<and> fst (snd (ParsePayloadHeader 2 2 zero_metadata header_overflow))
       = Some kDownloadInvalidMetadataSize"
proof -
  have h: "24 \<le> length header_overflow" "take 4 header_overflow = kDeltaMagic"
    "(2::uint64_t) \<le> be64toh_at header_overflow 4"
    "be64toh_at header_overflow 4 \<le> (2::uint64_t)"
    "(2::nat) ^ 64 \<le> 24 + unat (be64toh_at header_overflow 12)"
    using header_overflow_fields by simp_all
  from ParsePayloadHeader_overflow_checked [OF h(1-4), of zero_metadata] h
  show ?thesis by simp
qed

section \<open>Properties of the slot name\<close>

lemma kInvalidSlot_max: "s \<le> kInvalidSlot"
proof -
  have eq: "(0xFFFFFFFF :: uint32_t) = - 1" by simp
  show ?thesis unfolding kInvalidSlot_def UINT_MAX_def eq by (rule word_n1_ge)
qed

text \<open>
  C9: \<open>kInvalidSlot\<close> is the largest value of the slot type; \<open>SlotName\<close> is \<open>INVALID\<close> for
  it, the single character with code \<open>'A' + slot\<close> for a slot below 26, and \<open>TOO_BIG\<close> for
  every other slot.
\<close>

theorem SlotName_cases:
  "(\<forall>s. s \<le> kInvalidSlot)
   \<and> (slot = kInvalidSlot \<longrightarrow> SlotName slot = ''INVALID'')
   \<and> (slot < 26 \<longrightarrow> length (SlotName slot) = 1
         \<and> (of_char (hd (SlotName slot)) :: nat) = of_char CHR ''A'' + unat slot)
   \<and> (slot \<noteq> kInvalidSlot \<and> \<not> slot < 26 \<longrightarrow> SlotName slot = ''TOO_BIG'')"
proof -
  have inv: "\<not> kInvalidSlot < 26" by (simp add: kInvalidSlot_def UINT_MAX_def)
  have "unat slot < 26" if "slot < 26"
    using that by (simp add: word_less_nat_alt)
  then show ?thesis using inv kInvalidSlot_max
    by (auto simp: SlotName_def)
qed

theorem SlotName_cases_witness:
  "(3::Slot) < 26 \<and> length (SlotName 3) = 1 \<and> (of_char (hd (SlotName 3)) :: nat) = 68
   \<and> (26::Slot) \<noteq> kInvalidSlot \<and> \<not> (26::Slot) < 26 \<and> SlotName 26 = ''TOO_BIG''
   \<and> SlotName kInvalidSlot = ''INVALID''"
proof -
  have h: "(3::Slot) < 26" "(26::Slot) \<noteq> kInvalidSlot" "\<not> (26::Slot) < 26"
    by (simp_all add: kInvalidSlot_def UINT_MAX_def)
  from SlotName_cases [of 3] SlotName_cases [of 26] SlotName_cases [of kInvalidSlot] h
  show ?thesis by simp
qed

section \<open>Properties of ReadAll\<close>

lemma HANDLE_EINTR_read_Data:
  "HANDLE_EINTR_read (Data bs # rest) n = sys_read (Data bs # rest) n"
  by (simp add: HANDLE_EINTR_read.simps [of "Data bs # rest"])

lemma HANDLE_EINTR_read_Fail:
  "HANDLE_EINTR_read (Fail e # rest) n =
     (if e = EINTR then HANDLE_EINTR_read rest n else (Failed e, rest))"
  by (simp add: HANDLE_EINTR_read.simps [of "Fail e # rest"] split: Errno.splits)

lemma HANDLE_EINTR_read_Nil: "HANDLE_EINTR_read [] n = (Bytes [], [])"
  by (simp add: HANDLE_EINTR_read.simps [of "[]"])

lemma sys_read_length: "sys_read fd n = (Bytes bs, fd') \<Longrightarrow> length bs \<le> n"
  by (cases "(fd, n)" rule: sys_read.cases) auto

lemma sys_read_Failed_in_script: "sys_read fd n = (Failed e, fd') \<Longrightarrow> Fail e \<in> set fd"
  by (cases "(fd, n)" rule: sys_read.cases) auto

lemma sys_read_script_subset:
  "Fail e \<in> set (snd (sys_read fd n)) \<Longrightarrow> Fail e \<in> set fd"
  by (cases "(fd, n)" rule: sys_read.cases) (auto split: if_splits)

lemma HANDLE_EINTR_read_length:
  "HANDLE_EINTR_read fd n = (Bytes bs, fd') \<Longrightarrow> length bs \<le> n"
proof (induction fd n rule: HANDLE_EINTR_read.induct)
  case (1 fd n)
  obtain r fd1 where r: "sys_read fd n = (r, fd1)" by (cases "sys_read fd n")
  show ?case
  proof (cases "r = Failed EINTR")
    case True
    with r "1.prems" have "HANDLE_EINTR_read fd1 n = (Bytes bs, fd')"
      by (simp add: HANDLE_EINTR_read.simps [of fd])
    with "1.IH" r True show ?thesis by simp
  next
    case False
    with r "1.prems" have "sys_read fd n = (Bytes bs, fd')"
      by (simp add: HANDLE_EINTR_read.simps [of fd] split: ReadResult.splits Errno.splits)
    then show ?thesis by (rule sys_read_length)
  qed
qed

lemma HANDLE_EINTR_read_Failed:
  "HANDLE_EINTR_read fd n = (Failed e, fd') \<Longrightarrow> Fail e \<in> set fd \<and> e \<noteq> EINTR"
proof (induction fd n rule: HANDLE_EINTR_read.induct)
  case (1 fd n)
  obtain r fd1 where r: "sys_read fd n = (r, fd1)" by (cases "sys_read fd n")
  show ?case
  proof (cases "r = Failed EINTR")
    case True
    with r "1.prems" have "HANDLE_EINTR_read fd1 n = (Failed e, fd')"
      by (simp add: HANDLE_EINTR_read.simps [of fd])
    with "1.IH" r True have "Fail e \<in> set fd1 \<and> e \<noteq> EINTR" by simp
    then show ?thesis using sys_read_script_subset [of e fd n] r by simp
  next
    case False
    with r "1.prems" have "sys_read fd n = (Failed e, fd')" "e \<noteq> EINTR"
      by (auto simp: HANDLE_EINTR_read.simps [of fd] split: ReadResult.splits Errno.splits)
    then show ?thesis using sys_read_Failed_in_script by blast
  qed
qed

lemma HANDLE_EINTR_read_script_subset:
  "Fail e \<in> set (snd (HANDLE_EINTR_read fd n)) \<Longrightarrow> Fail e \<in> set fd"
proof (induction fd n rule: HANDLE_EINTR_read.induct)
  case (1 fd n)
  obtain r fd1 where r: "sys_read fd n = (r, fd1)" by (cases "sys_read fd n")
  show ?case
  proof (cases "r = Failed EINTR")
    case True
    with r "1.prems" have "Fail e \<in> set (snd (HANDLE_EINTR_read fd1 n))"
      by (simp add: HANDLE_EINTR_read.simps [of fd])
    with "1.IH" r True have "Fail e \<in> set fd1" by simp
    then show ?thesis using sys_read_script_subset [of e fd n] r by simp
  next
    case False
    with r "1.prems" have "Fail e \<in> set (snd (sys_read fd n))"
      by (auto simp: HANDLE_EINTR_read.simps [of fd] split: ReadResult.splits Errno.splits)
    then show ?thesis by (rule sys_read_script_subset)
  qed
qed

lemma ReadAll_loop_bound:
  "bytes_read \<le> count \<Longrightarrow> length c_buf = bytes_read \<Longrightarrow>
   out_bytes_read (ReadAll_loop fd count bytes_read c_buf) \<le> count
   \<and> length (buf (ReadAll_loop fd count bytes_read c_buf))
       = out_bytes_read (ReadAll_loop fd count bytes_read c_buf)"
proof (induction fd count bytes_read c_buf rule: ReadAll_loop.induct)
  case (1 fd count bytes_read c_buf)
  show ?case
  proof (cases "bytes_read < count")
    case False
    with "1.prems" show ?thesis by (simp add: ReadAll_loop.simps [of fd])
  next
    case True
    obtain r fd' where r: "HANDLE_EINTR_read fd (count - bytes_read) = (r, fd')"
      by (cases "HANDLE_EINTR_read fd (count - bytes_read)")
    show ?thesis
    proof (cases r)
      case (Failed e)
      with True r "1.prems" show ?thesis by (simp add: ReadAll_loop.simps [of fd])
    next
      case (Bytes bs)
      show ?thesis
      proof (cases "bs = []")
        case True
        with \<open>bytes_read < count\<close> r Bytes "1.prems" show ?thesis
          by (simp add: ReadAll_loop.simps [of fd])
      next
        case False
        have "length bs \<le> count - bytes_read"
          using HANDLE_EINTR_read_length r Bytes by blast
        with True have le: "bytes_read + length bs \<le> count" by simp
        have "length (c_buf @ bs) = bytes_read + length bs" using "1.prems" by simp
        moreover from False have nz: "length bs \<noteq> 0" by simp
        from "1.IH" [OF True r [symmetric] Bytes nz] le \<open>length (c_buf @ bs) = bytes_read + length bs\<close>
        have "out_bytes_read (ReadAll_loop fd' count (bytes_read + length bs) (c_buf @ bs)) \<le> count
              \<and> length (buf (ReadAll_loop fd' count (bytes_read + length bs) (c_buf @ bs)))
                 = out_bytes_read (ReadAll_loop fd' count (bytes_read + length bs) (c_buf @ bs))"
          by simp
        with True r Bytes False show ?thesis by (simp add: ReadAll_loop.simps [of fd])
      qed
    qed
  qed
qed

lemma ReadAll_loop_false_only_on_error:
  "\<not> ok (ReadAll_loop fd count bytes_read c_buf) \<Longrightarrow>
   \<exists>e. Fail e \<in> set fd \<and> e \<noteq> EAGAIN \<and> e \<noteq> EWOULDBLOCK \<and> e \<noteq> EINTR"
proof (induction fd count bytes_read c_buf rule: ReadAll_loop.induct)
  case (1 fd count bytes_read c_buf)
  show ?case
  proof (cases "bytes_read < count")
    case False
    with "1.prems" show ?thesis by (simp add: ReadAll_loop.simps [of fd])
  next
    case True
    obtain r fd' where r: "HANDLE_EINTR_read fd (count - bytes_read) = (r, fd')"
      by (cases "HANDLE_EINTR_read fd (count - bytes_read)")
    show ?thesis
    proof (cases r)
      case (Failed e)
      with True r "1.prems" have "e \<noteq> EWOULDBLOCK \<and> e \<noteq> EAGAIN"
        by (simp add: ReadAll_loop.simps [of fd] split: if_splits)
      moreover have "Fail e \<in> set fd \<and> e \<noteq> EINTR"
        using HANDLE_EINTR_read_Failed r Failed by blast
      ultimately show ?thesis by blast
    next
      case (Bytes bs)
      show ?thesis
      proof (cases "bs = []")
        case True
        with \<open>bytes_read < count\<close> r Bytes "1.prems" show ?thesis
          by (simp add: ReadAll_loop.simps [of fd])
      next
        case False
        with True r Bytes "1.prems"
        have "\<not> ok (ReadAll_loop fd' count (bytes_read + length bs) (c_buf @ bs))"
          by (simp add: ReadAll_loop.simps [of fd])
        moreover from False have nz: "length bs \<noteq> 0" by simp
        ultimately obtain e where e: "Fail e \<in> set fd'" "e \<noteq> EAGAIN" "e \<noteq> EWOULDBLOCK" "e \<noteq> EINTR"
          using "1.IH" [OF True r [symmetric] Bytes] by auto
        have "Fail e \<in> set fd"
          using HANDLE_EINTR_read_script_subset [of e fd "count - bytes_read"] r e(1) by simp
        with e show ?thesis by blast
      qed
    qed
  qed
qed

lemma ReadAll_loop_eof_ok:
  "eof (ReadAll_loop fd count bytes_read c_buf) \<Longrightarrow> ok (ReadAll_loop fd count bytes_read c_buf)"
proof (induction fd count bytes_read c_buf rule: ReadAll_loop.induct)
  case (1 fd count bytes_read c_buf)
  show ?case
  proof (cases "bytes_read < count")
    case False
    then show ?thesis by (simp add: ReadAll_loop.simps [of fd])
  next
    case True
    obtain r fd' where r: "HANDLE_EINTR_read fd (count - bytes_read) = (r, fd')"
      by (cases "HANDLE_EINTR_read fd (count - bytes_read)")
    show ?thesis
    proof (cases r)
      case (Failed e)
      with True r "1.prems" show ?thesis
        by (simp add: ReadAll_loop.simps [of fd] split: if_splits)
    next
      case (Bytes bs)
      show ?thesis
      proof (cases "bs = []")
        case True
        with \<open>bytes_read < count\<close> r Bytes show ?thesis
          by (simp add: ReadAll_loop.simps [of fd])
      next
        case False
        then have nz: "length bs \<noteq> 0" by simp
        from False True r Bytes "1.prems" "1.IH" [OF True r [symmetric] Bytes nz]
        show ?thesis by (simp add: ReadAll_loop.simps [of fd])
      qed
    qed
  qed
qed

lemma ReadAll_loop_chunks:
  "\<forall>c \<in> set chunks. c \<noteq> [] \<Longrightarrow> bytes_read + length (concat chunks) < count \<Longrightarrow>
   ReadAll_loop (map Data chunks @ rest) count bytes_read c_buf
     = ReadAll_loop rest count (bytes_read + length (concat chunks)) (c_buf @ concat chunks)"
proof (induction chunks arbitrary: bytes_read c_buf)
  case Nil
  then show ?case by simp
next
  case (Cons c chunks)
  from Cons.prems have c: "c \<noteq> []" "length c \<le> count - bytes_read" "bytes_read < count"
    by simp_all
  then have "HANDLE_EINTR_read (Data c # map Data chunks @ rest) (count - bytes_read)
               = (Bytes c, map Data chunks @ rest)"
    by (simp add: HANDLE_EINTR_read_Data)
  with c have "ReadAll_loop (map Data (c # chunks) @ rest) count bytes_read c_buf
      = ReadAll_loop (map Data chunks @ rest) count (bytes_read + length c) (c_buf @ c)"
    by (simp add: ReadAll_loop.simps [of "Data c # map Data chunks @ rest"])
  also have "\<dots> = ReadAll_loop rest count (bytes_read + length c + length (concat chunks))
                     ((c_buf @ c) @ concat chunks)"
    using Cons.prems by (intro Cons.IH) simp_all
  finally show ?case by (simp add: add.assoc)
qed

text \<open>
  C10: \<open>ReadAll\<close> never reports more than \<open>count\<close> bytes, and the bytes it stored are
  as many as it reports; it returns false only when a read failed with an error other
  than \<open>EAGAIN\<close>, \<open>EWOULDBLOCK\<close> (and \<open>EINTR\<close>, which is retried); when the read that
  follows some chunks of data would block it returns true with the bytes read so far and
  \<open>eof\<close> false; when that read returns zero bytes it returns true with \<open>eof\<close> true; and
  polling a descriptor whose next read would block gives success, zero bytes and no end
  of file. A read that fails with another error gives false, with the bytes read so far.
\<close>

theorem ReadAll_contract:
  "out_bytes_read (ReadAll fd count) \<le> count
   \<and> length (buf (ReadAll fd count)) = out_bytes_read (ReadAll fd count)
   \<and> (\<not> ok (ReadAll fd count) \<longrightarrow>
        (\<exists>e. Fail e \<in> set fd \<and> e \<noteq> EAGAIN \<and> e \<noteq> EWOULDBLOCK \<and> e \<noteq> EINTR))
   \<and> (eof (ReadAll fd count) \<longrightarrow> ok (ReadAll fd count))
   \<and> ((\<forall>c \<in> set chunks. c \<noteq> []) \<and> length (concat chunks) < count
        \<and> (e = EAGAIN \<or> e = EWOULDBLOCK) \<longrightarrow>
        ReadAll (map Data chunks @ Fail e # rest) count
          = \<lparr>ok = True, out_bytes_read = length (concat chunks), eof = False,
             buf = concat chunks, fd_after = rest\<rparr>)
   \<and> ((\<forall>c \<in> set chunks. c \<noteq> []) \<and> length (concat chunks) < count \<longrightarrow>
        ReadAll (map Data chunks @ Data [] # rest) count
          = \<lparr>ok = True, out_bytes_read = length (concat chunks), eof = True,
             buf = concat chunks, fd_after = rest\<rparr>
        \<and> ReadAll (map Data chunks) count
          = \<lparr>ok = True, out_bytes_read = length (concat chunks), eof = True,
             buf = concat chunks, fd_after = []\<rparr>)
   \<and> (e = EAGAIN \<or> e = EWOULDBLOCK \<longrightarrow>
        ok (ReadAll (Fail e # rest) count) \<and> out_bytes_read (ReadAll (Fail e # rest) count) = 0
        \<and> \<not> eof (ReadAll (Fail e # rest) count))
   \<and> ((\<forall>c \<in> set chunks. c \<noteq> []) \<and> length (concat chunks) < count
        \<and> e \<noteq> EAGAIN \<and> e \<noteq> EWOULDBLOCK \<and> e \<noteq> EINTR \<longrightarrow>
        ReadAll (map Data chunks @ Fail e # rest) count
          = \<lparr>ok = False, out_bytes_read = length (concat chunks), eof = False,
             buf = concat chunks, fd_after = rest\<rparr>)"
proof -
  have other: "ReadAll_loop (Fail e # rest) count n b
                 = \<lparr>ok = False, out_bytes_read = n, eof = False, buf = b, fd_after = rest\<rparr>"
    if "e \<noteq> EAGAIN" "e \<noteq> EWOULDBLOCK" "e \<noteq> EINTR" "n < count" for n b
    using that
    by (simp add: ReadAll_loop.simps [of "Fail e # rest"] HANDLE_EINTR_read_Fail)
  have block: "ReadAll_loop (Fail e # rest) count n b
                 = \<lparr>ok = True, out_bytes_read = n, eof = False, buf = b, fd_after = rest\<rparr>"
    if "e = EAGAIN \<or> e = EWOULDBLOCK" "n < count" for n b
    using that
    by (auto simp: ReadAll_loop.simps [of "Fail e # rest"] HANDLE_EINTR_read_Fail)
  have zero: "ReadAll_loop (Data [] # rest) count n b
                 = \<lparr>ok = True, out_bytes_read = n, eof = True, buf = b, fd_after = rest\<rparr>"
    if "n < count" for n b
    using that
    by (simp add: ReadAll_loop.simps [of "Data [] # rest"] HANDLE_EINTR_read_Data)
  have nil: "ReadAll_loop [] count n b
                 = \<lparr>ok = True, out_bytes_read = n, eof = True, buf = b, fd_after = []\<rparr>"
    if "n < count" for n b
    using that by (simp add: ReadAll_loop.simps [of "[]"] HANDLE_EINTR_read_Nil)
  have poll: "ok (ReadAll (Fail e # rest) count)
        \<and> out_bytes_read (ReadAll (Fail e # rest) count) = 0
        \<and> \<not> eof (ReadAll (Fail e # rest) count)" if "e = EAGAIN \<or> e = EWOULDBLOCK"
  proof (cases "0 < count")
    case True
    with block [OF that, of 0 "[]"] show ?thesis by (simp add: ReadAll_def)
  next
    case False
    then show ?thesis by (simp add: ReadAll_def ReadAll_loop.simps [of "Fail e # rest"])
  qed
  have chunks_nil: "ReadAll (map Data chunks) count
          = \<lparr>ok = True, out_bytes_read = length (concat chunks), eof = True,
             buf = concat chunks, fd_after = []\<rparr>"
    if "\<forall>c \<in> set chunks. c \<noteq> []" "length (concat chunks) < count"
    using ReadAll_loop_chunks [of chunks 0 count "[]" "[]"] that nil
    by (simp add: ReadAll_def)
  show ?thesis
    using ReadAll_loop_bound [of 0 count "[]" fd]
      ReadAll_loop_false_only_on_error [of fd count 0 "[]"]
      ReadAll_loop_eof_ok [of fd count 0 "[]"]
      ReadAll_loop_chunks [of chunks 0 count "Fail e # rest" "[]"]
      ReadAll_loop_chunks [of chunks 0 count "Data [] # rest" "[]"]
      block zero chunks_nil poll other
    by (simp add: ReadAll_def)
qed

theorem ReadAll_contract_witness:
  "ReadAll [Data [1, 2, 3], Fail EAGAIN, Data [4]] 1024
     = \<lparr>ok = True, out_bytes_read = 3, eof = False, buf = [1, 2, 3], fd_after = [Data [4]]\<rparr>
   \<and> ReadAll [Data [1, 2, 3], Data [], Data [4]] 1024
     = \<lparr>ok = True, out_bytes_read = 3, eof = True, buf = [1, 2, 3], fd_after = [Data [4]]\<rparr>
   \<and> ok (ReadAll [Fail EAGAIN, Data [4]] 1024)
   \<and> out_bytes_read (ReadAll [Fail EAGAIN, Data [4]] 1024) = 0
   \<and> \<not> eof (ReadAll [Fail EAGAIN, Data [4]] 1024)
   \<and> \<not> ok (ReadAll [Data [1, 2, 3], Fail EIO] 1024)"
proof -
  have bad: "\<not> ok (ReadAll [Data [1, 2, 3], Fail EIO] 1024)"
    by (simp add: ReadAll_def ReadAll_loop.simps [of "_ # _"] HANDLE_EINTR_read_Data
          HANDLE_EINTR_read_Fail)
  from ReadAll_contract [of "[Data [1, 2, 3], Fail EIO]" 1024 "[[1, 2, 3]]" EAGAIN "[Data [4]]"]
    bad
  show ?thesis by simp
qed

section \<open>The invariants hold\<close>

lemma rounded_sum_Nil: "rounded_sum rnd [] = 0"
  by (simp add: rounded_sum_def)

lemma rounded_sum_snoc: "rounded_sum rnd (ws @ [w]) = rnd (rounded_sum rnd ws + w)"
  by (simp add: rounded_sum_def)

lemma rounded_sum_fixed: "rounding rnd \<Longrightarrow> rnd (rounded_sum rnd ws) = rounded_sum rnd ws"
  by (cases ws rule: rev_cases) (simp_all add: rounded_sum_Nil rounded_sum_snoc rounding_def)

lemma rounded_sum_step:
  assumes "rounding rnd" "0 \<le> w"
  shows "rounded_sum rnd ws \<le> rounded_sum rnd (ws @ [w])"
proof -
  have "rnd (rounded_sum rnd ws) \<le> rnd (rounded_sum rnd ws + w)"
    using assms by (simp add: rounding_def)
  then show ?thesis using assms(1) by (simp add: rounded_sum_snoc rounded_sum_fixed)
qed

lemma rounded_sum_take:
  assumes "rounding rnd" "\<forall>w \<in> set ws. 0 \<le> w"
  shows "rounded_sum rnd (take k ws) \<le> rounded_sum rnd ws"
  using assms(2)
proof (induction ws arbitrary: k rule: rev_induct)
  case Nil
  then show ?case by simp
next
  case (snoc w ws)
  show ?case
  proof (cases "k \<le> length ws")
    case True
    then have "rounded_sum rnd (take k (ws @ [w])) = rounded_sum rnd (take k ws)" by simp
    also have "\<dots> \<le> rounded_sum rnd ws" using snoc by simp
    also have "\<dots> \<le> rounded_sum rnd (ws @ [w])"
      using rounded_sum_step [OF assms(1)] snoc.prems by simp
    finally show ?thesis .
  next
    case False
    then show ?thesis by simp
  qed
qed

lemma rounded_sum_take_Suc:
  assumes "k < length ws"
  shows "rounded_sum rnd (take (Suc k) ws) = rnd (rounded_sum rnd (take k ws) + ws ! k)"
  using assms by (simp add: take_Suc_conv_app_nth rounded_sum_snoc)

lemma weight_of_range: "weight_of part = 0 \<or> weight_of part = 1"
  by (simp add: weight_of_def)

lemma weights_nonneg: "\<forall>w \<in> set (map weight_of ps). 0 \<le> w"
  by (auto simp: weight_of_def)

lemma clamp_fraction_range: "0 \<le> clamp_fraction fraction \<and> clamp_fraction fraction \<le> 1"
  by (cases fraction) (simp_all add: Let_def)

lemma consistent_calls_append:
  "consistent env this \<Longrightarrow> list_all (quiet env) cs \<Longrightarrow> consistent env (this\<lparr>calls := calls this @ cs\<rparr>)"
  by (auto simp: consistent_def)

lemma EnsureUnmounted_frame:
  "\<exists>cs. EnsureUnmounted env this = this\<lparr>calls := calls this @ cs\<rparr> \<and> list_all (quiet env) cs
        \<and> (\<forall>c \<in> set cs. \<forall>command. c \<noteq> ExecFlags command)"
proof (cases "IsMountpoint_returns env (clock this) (fs_mount_dir this)")
  case True
  then have "EnsureUnmounted env this
               = this\<lparr>calls := calls this @ [UnmountFilesystem (fs_mount_dir this)]\<rparr>"
    by (simp add: EnsureUnmounted_def call_def)
  then show ?thesis by (intro exI [of _ "[UnmountFilesystem (fs_mount_dir this)]"]) simp
next
  case False
  then have "EnsureUnmounted env this = this\<lparr>calls := calls this @ []\<rparr>"
    by (simp add: EnsureUnmounted_def)
  then show ?thesis by (intro exI [of _ "[]"]) simp
qed

lemma MountPartition_frame:
  "\<exists>cs. snd (MountPartition env part this) = this\<lparr>calls := calls this @ cs\<rparr>
        \<and> list_all (quiet env) cs \<and> (\<forall>c \<in> set cs. \<forall>command. c \<noteq> ExecFlags command)"
proof -
  obtain cs where cs: "EnsureUnmounted env this = this\<lparr>calls := calls this @ cs\<rparr>"
      "list_all (quiet env) cs" "\<forall>c \<in> set cs. \<forall>command. c \<noteq> ExecFlags command"
    using EnsureUnmounted_frame [of env this] by blast
  have "snd (MountPartition env part this) = this\<lparr>calls := calls this @ []\<rparr>
      \<or> snd (MountPartition env part this)
          = this\<lparr>calls := calls this @ (cs @ [SetBlockDeviceReadOnly (readonly_target_path part) True])\<rparr>
      \<or> snd (MountPartition env part this)
          = this\<lparr>calls := calls this @ (cs @ [SetBlockDeviceReadOnly (readonly_target_path part) True,
                MountFilesystem (readonly_target_path part) (fs_mount_dir this)
                  (filesystem_type part) (GetPartitionMountOptions env (name part))])\<rparr>
      \<or> snd (MountPartition env part this)
          = this\<lparr>calls := calls this @ (cs @ [
                MountFilesystem (readonly_target_path part) (fs_mount_dir this)
                  (filesystem_type part) (GetPartitionMountOptions env (name part))])\<rparr>"
    by (simp add: MountPartition_def Let_def cs(1) call_def)
  then show ?thesis using cs(2,3)
    by (elim disjE) (rule exI, erule conjI, simp add: list_all_iff)+
qed

lemma Cleanup_frame:
  "\<exists>cs. Cleanup env this
           = this\<lparr>calls := calls this @ cs, progress_fd := - 1, progress_controller := False,
                  progress_buffer := []\<rparr>
        \<and> list_all (quiet env) cs \<and> (\<forall>c \<in> set cs. \<forall>command. c \<noteq> ExecFlags command)"
proof (cases "is_android env")
  case True
  then show ?thesis
    by (intro exI [of _ "[UnmountFilesystem (fs_mount_dir this)]"])
       (simp add: Cleanup_def Let_def call_def)
next
  case False
  then show ?thesis
    by (intro exI [of _ "[UnmountFilesystem (fs_mount_dir this), DeleteFile (fs_mount_dir this)]"])
       (simp add: Cleanup_def Let_def call_def)
qed

lemma progress_value_range:
  assumes r: "rounding (round_to_double env)" and c: "consistent env this"
    and cur: "current_partition this < length (partition_weight this)"
    and tot: "total_weight this \<noteq> 0"
    and f: "0 \<le> f" "f \<le> 1"
  shows "0 \<le> round_to_double env
                (round_to_double env
                   (accumulated_weight this
                    + round_to_double env (partition_weight this ! current_partition this * f))
                 / total_weight this)
         \<and> round_to_double env
                (round_to_double env
                   (accumulated_weight this
                    + round_to_double env (partition_weight this ! current_partition this * f))
                 / total_weight this) \<le> 1"
proof -
  let ?rnd = "round_to_double env"
  let ?ws = "partition_weight this"
  let ?k = "current_partition this"
  have mono: "\<And>x y. x \<le> y \<Longrightarrow> ?rnd x \<le> ?rnd y" and r0: "?rnd 0 = 0" and r1: "?rnd 1 = 1"
    using r by (simp_all add: rounding_def)
  have ws: "?ws = map weight_of (partitions (install_plan this))"
    and total: "total_weight this = rounded_sum ?rnd ?ws"
    and acc: "0 \<le> accumulated_weight this"
      "accumulated_weight this \<le> rounded_sum ?rnd (take ?k ?ws)"
    using c r unfolding consistent_def by blast+
  have nonneg: "\<forall>w \<in> set ?ws. 0 \<le> w" using ws weights_nonneg by simp
  have w: "?ws ! ?k = 0 \<or> ?ws ! ?k = 1"
    using ws cur weight_of_range by (metis length_map nth_map)
  have wf: "0 \<le> ?rnd (?ws ! ?k * f) \<and> ?rnd (?ws ! ?k * f) \<le> ?ws ! ?k"
  proof (rule disjE [OF w])
    assume "?ws ! ?k = 0" then show ?thesis by (simp add: r0)
  next
    assume w1: "?ws ! ?k = 1"
    have "?rnd 0 \<le> ?rnd f" "?rnd f \<le> ?rnd 1" using f mono by simp_all
    then show ?thesis using w1 by (simp add: r0 r1)
  qed
  let ?x = "?rnd (accumulated_weight this + ?rnd (?ws ! ?k * f))"
  have "?rnd 0 \<le> ?x" using acc(1) wf by (intro mono) simp
  then have x0: "0 \<le> ?x" by (simp add: r0)
  have "?x \<le> ?rnd (rounded_sum ?rnd (take ?k ?ws) + ?ws ! ?k)"
    using acc(2) wf by (intro mono) simp
  also have "\<dots> = rounded_sum ?rnd (take (Suc ?k) ?ws)"
    using cur by (simp add: rounded_sum_take_Suc)
  also have "\<dots> \<le> rounded_sum ?rnd ?ws" by (rule rounded_sum_take [OF r nonneg])
  finally have x1: "?x \<le> total_weight this" by (simp add: total)
  with x0 tot have pos: "0 < total_weight this" by simp
  have "0 \<le> ?x / total_weight this" "?x / total_weight this \<le> 1"
    using x0 x1 pos by simp_all
  then have "?rnd 0 \<le> ?rnd (?x / total_weight this)" "?rnd (?x / total_weight this) \<le> ?rnd 1"
    using mono by simp_all
  then show ?thesis by (simp add: r0 r1)
qed

lemma ReportProgress_frame:
  assumes "consistent env this"
  shows "\<exists>cs. ReportProgress env fraction this = this\<lparr>calls := calls this @ cs\<rparr>
          \<and> list_all (quiet env) cs \<and> (\<forall>c \<in> set cs. \<forall>command. c \<noteq> ExecFlags command)"
proof (cases "delegate this")
  case False
  then have "ReportProgress env fraction this = this\<lparr>calls := calls this @ []\<rparr>"
    by (simp add: ReportProgress_def)
  then show ?thesis by (intro exI [of _ "[]"]) simp
next
  case True
  show ?thesis
  proof (cases "current_partition this \<ge> length (partition_weight this) \<or> total_weight this = 0")
    case True
    with \<open>delegate this\<close> show ?thesis
      by (intro exI [of _ "[ProgressUpdate 1]"]) (simp add: ReportProgress_def call_def)
  next
    case False
    let ?v = "round_to_double env
                (round_to_double env
                   (accumulated_weight this
                    + round_to_double env
                        (partition_weight this ! current_partition this * clamp_fraction fraction))
                 / total_weight this)"
    from False have "rounding (round_to_double env) \<longrightarrow> 0 \<le> ?v \<and> ?v \<le> 1"
      using progress_value_range [OF _ assms, of "clamp_fraction fraction"]
        clamp_fraction_range [of fraction] by simp
    with False \<open>delegate this\<close> show ?thesis
      by (intro exI [of _ "[ProgressUpdate ?v]"])
         (simp add: ReportProgress_def call_def Let_def)
  qed
qed

lemma consistent_skip:
  assumes c: "consistent env this"
    and cur: "current_partition this < length (partitions (install_plan this))"
    and skip: "\<not> run_postinstall (partitions (install_plan this) ! current_partition this)"
  shows "consistent env (this\<lparr>current_partition := current_partition this + 1\<rparr>)"
proof -
  let ?rnd = "round_to_double env"
  let ?ws = "partition_weight this"
  let ?k = "current_partition this"
  have ws: "?ws = map weight_of (partitions (install_plan this))"
    using c by (simp add: consistent_def)
  with cur have k: "?k < length ?ws" by simp
  have "rounded_sum ?rnd (take ?k ?ws) \<le> rounded_sum ?rnd (take ?k ?ws @ [?ws ! ?k])"
    if "rounding ?rnd"
    using ws cur by (intro rounded_sum_step [OF that]) (simp add: weight_of_def)
  then have "rounded_sum ?rnd (take ?k ?ws) \<le> rounded_sum ?rnd (take (Suc ?k) ?ws)"
    if "rounding ?rnd"
    using k that by (simp add: take_Suc_conv_app_nth)
  with c cur show ?thesis by (auto simp: consistent_def)
qed

lemma consistent_advance:
  assumes c: "consistent env this"
    and cur: "current_partition this < length (partitions (install_plan this))"
  shows "consistent env
           (this\<lparr>accumulated_weight :=
                    round_to_double env
                      (accumulated_weight this + partition_weight this ! current_partition this),
                  current_partition := current_partition this + 1\<rparr>)"
proof -
  let ?rnd = "round_to_double env"
  let ?ws = "partition_weight this"
  let ?k = "current_partition this"
  have ws: "?ws = map weight_of (partitions (install_plan this))"
    using c unfolding consistent_def by blast
  from ws cur have k: "?k < length ?ws" by simp
  have w: "0 \<le> ?ws ! ?k" using ws cur by (simp add: weight_of_def)
  have a: "0 \<le> ?rnd (accumulated_weight this + ?ws ! ?k)
           \<and> ?rnd (accumulated_weight this + ?ws ! ?k)
               \<le> rounded_sum ?rnd (take (Suc ?k) ?ws)" if r: "rounding ?rnd"
  proof -
    have mono: "\<And>x y. x \<le> y \<Longrightarrow> ?rnd x \<le> ?rnd y" and r0: "?rnd 0 = 0"
      using r by (simp_all add: rounding_def)
    have acc: "0 \<le> accumulated_weight this"
      "accumulated_weight this \<le> rounded_sum ?rnd (take ?k ?ws)"
      using c r unfolding consistent_def by blast+
    have "?rnd 0 \<le> ?rnd (accumulated_weight this + ?ws ! ?k)"
      using acc(1) w by (intro mono) simp
    then have a0: "0 \<le> ?rnd (accumulated_weight this + ?ws ! ?k)" by (simp add: r0)
    have "?rnd (accumulated_weight this + ?ws ! ?k)
            \<le> ?rnd (rounded_sum ?rnd (take ?k ?ws) + ?ws ! ?k)"
      using acc(2) by (intro mono) simp
    then have "?rnd (accumulated_weight this + ?ws ! ?k)
                 \<le> rounded_sum ?rnd (take (Suc ?k) ?ws)"
      using k by (simp add: rounded_sum_take_Suc)
    with a0 show ?thesis by simp
  qed
  from c cur a show ?thesis by (auto simp: consistent_def)
qed

lemma CompletePostinstall_completes:
  assumes "list_all (quiet env) (calls this)"
    and "powerwash_scheduled this \<longrightarrow>
           powerwash_required (install_plan this) \<and> SchedulePowerwash \<in> set (calls this)"
    and "idle this"
  shows "completed env (CompletePostinstall env error_code this)"
proof -
  obtain pre code where
    eq: "CompletePostinstall env error_code this
           = this\<lparr>calls := calls this @ pre
                     @ (if powerwash_scheduled this \<and> code \<noteq> kSuccess
                           \<and> code \<noteq> kUpdatedButNotActive
                        then [CancelPowerwash] else [])
                     @ [ActionComplete code]\<rparr>"
    and pre: "list_all (quiet env) pre"
  proof -
    let ?out = "if HasOutputPipe env then [SetOutputObject] else []"
    let ?plan = "install_plan this"
    have q: "list_all (quiet env) (p @ ?out)" if "list_all (quiet env) p" for p using that by simp
    show ?thesis
    proof (cases "error_code = kSuccess")
      case False
      then show ?thesis
        by (intro that [of ?out error_code])
           (simp_all add: CompletePostinstall_def Let_def call_def)
    next
      case True
      note ok = this
      show ?thesis
      proof (cases "switch_slot_on_reboot ?plan")
        case False
        with ok show ?thesis
          by (intro that [of ?out kUpdatedButNotActive])
             (simp_all add: CompletePostinstall_def Let_def call_def)
      next
        case True
        note sw = this
        show ?thesis
        proof (cases "FinishUpdate_returns env (clock this) (powerwash_required ?plan)")
          case False
          with ok sw show ?thesis
            by (intro that [of "[FinishUpdate (powerwash_required ?plan)] @ ?out"
                  kPostinstallRunnerError])
               (simp_all add: CompletePostinstall_def Let_def call_def)
        next
          case True
          note fin = this
          show ?thesis
          proof (cases "SetActiveBootSlot_returns env
                          (clock (call (FinishUpdate (powerwash_required ?plan)) this))
                          (target_slot ?plan)")
            case False
            with ok sw fin show ?thesis
              by (intro that [of "[FinishUpdate (powerwash_required ?plan),
                    SetActiveBootSlot (target_slot ?plan)] @ ?out" kPostinstallRunnerError])
                 (simp_all add: CompletePostinstall_def Let_def call_def)
          next
            case True
            with ok sw fin show ?thesis
              by (intro that [of "[FinishUpdate (powerwash_required ?plan),
                    SetActiveBootSlot (target_slot ?plan), SetWarmReset True,
                    SetVbmetaDigestForInactiveSlot False] @ ?out" kSuccess])
                 (simp_all add: CompletePostinstall_def Let_def call_def)
          qed
        qed
      qed
    qed
  qed
  have "list_all (quiet env) (calls this @ pre)" using assms(1) pre by simp
  then show ?thesis using assms(2,3)
    unfolding completed_def eq
    by (intro conjI exI [of _ "calls this @ pre"] exI [of _ code])
       (auto simp: idle_def)
qed

lemma CompletePostinstall_completed:
  assumes "consistent env this" "idle this"
  shows "completed env (CompletePostinstall env error_code this)"
  using assms by (intro CompletePostinstall_completes) (simp_all add: consistent_def)

lemma consistent_cong:
  "install_plan a = install_plan b \<Longrightarrow> partition_weight a = partition_weight b \<Longrightarrow>
   total_weight a = total_weight b \<Longrightarrow> accumulated_weight a = accumulated_weight b \<Longrightarrow>
   current_partition a = current_partition b \<Longrightarrow> calls a = calls b \<Longrightarrow>
   powerwash_scheduled a = powerwash_scheduled b \<Longrightarrow> consistent env a = consistent env b"
  by (simp add: consistent_def)

lemma settled_completed: "completed env this \<Longrightarrow> settled env (Some this)"
  by (simp add: settled_def)

lemma runner_settles:
  "consistent env this \<Longrightarrow> idle this \<Longrightarrow>
     settled env (PerformPartitionPostinstall env this)"
  "consistent env this \<Longrightarrow> idle this \<Longrightarrow>
     settled env (PerformPartitionPostinstall_loop env this)"
  "consistent env this \<Longrightarrow>
     current_partition this < length (partitions (install_plan this)) \<Longrightarrow>
     settled env (CompletePartitionPostinstall env return_code this)"
proof (induction env this and env this and env return_code this
    rule: PerformPartitionPostinstall_PerformPartitionPostinstall_loop_CompletePartitionPostinstall.induct)
  case (1 env this)
  show ?case
  proof (cases "download_url (install_plan this) = []")
    case True
    then show ?thesis
      using CompletePostinstall_completed [OF "1.prems"]
      by (simp add: PerformPartitionPostinstall.simps [of env this] settled_completed)
  next
    case False
    then show ?thesis
      using "1.IH" [OF False "1.prems"]
      by (simp add: PerformPartitionPostinstall.simps [of env this])
  qed
next
  case (2 env this)
  note c = "2.prems"(1) and i = "2.prems"(2)
  let ?n = "length (partitions (install_plan this))"
  let ?k = "current_partition this"
  let ?p = "partitions (install_plan this) ! ?k"
  let ?m = "MountPartition env ?p this"
  obtain cs where cs: "snd ?m = this\<lparr>calls := calls this @ cs\<rparr>" "list_all (quiet env) cs"
    using MountPartition_frame [of env ?p this] by blast
  have c1: "consistent env (snd ?m)"
    unfolding cs(1) by (rule consistent_calls_append [OF c cs(2)])
  have i1: "idle (snd ?m)" using i by (simp add: cs(1) idle_def)
  have k1: "current_partition (snd ?m) = ?k" "install_plan (snd ?m) = install_plan this"
    by (simp_all add: cs(1))
  show ?case
  proof (cases "?k < ?n \<and> \<not> run_postinstall ?p")
    case True
    note skip = this
    show ?thesis
    proof (cases "postinstall_path ?p \<noteq> []")
      case False
      have "consistent env (this\<lparr>current_partition := ?k + 1\<rparr>)"
        using consistent_skip [OF c] skip by simp
      moreover have "idle (this\<lparr>current_partition := ?k + 1\<rparr>)"
        using i by (simp add: idle_def)
      ultimately have "settled env
          (PerformPartitionPostinstall_loop env (this\<lparr>current_partition := ?k + 1\<rparr>))"
        using "2.IH"(3) [OF skip False] by simp
      then show ?thesis using skip False
        by (simp add: PerformPartitionPostinstall_loop.simps [of env this])
    next
      case True
      note path = this
      show ?thesis
      proof (cases "fst ?m")
        case False
        have "completed env (CompletePostinstall env kPostInstallMountError (snd ?m))"
          by (rule CompletePostinstall_completed [OF c1 i1])
        then show ?thesis using skip path False
          by (simp add: PerformPartitionPostinstall_loop.simps [of env this] settled_completed)
      next
        case True
        then have mounted: "\<not> \<not> fst ?m" by simp
        let ?u = "call (UnmountFilesystem (fs_mount_dir this)) (snd ?m)"
        have cu: "consistent env ?u"
          unfolding call_def by (rule consistent_calls_append [OF c1]) simp
        have ku: "current_partition ?u = ?k" "install_plan ?u = install_plan this"
          by (simp_all add: call_def k1)
        show ?thesis
        proof (cases "UnmountFilesystem_returns env (clock (snd ?m)) (fs_mount_dir this)")
          case False
          have "settled env (CompletePartitionPostinstall env 1 ?u)"
            using "2.IH"(1) [OF skip path mounted False cu] skip ku by simp
          then show ?thesis using skip path True False
            by (simp add: PerformPartitionPostinstall_loop.simps [of env this])
        next
          case True
          then have unmounted: "\<not> \<not> UnmountFilesystem_returns env (clock (snd ?m))
                                      (fs_mount_dir this)" by simp
          have "consistent env (?u\<lparr>current_partition := current_partition ?u + 1\<rparr>)"
            using consistent_skip [OF cu] skip ku by simp
          then have "consistent env (?u\<lparr>current_partition := ?k + 1\<rparr>)"
            by (simp add: ku)
          moreover have "idle (?u\<lparr>current_partition := ?k + 1\<rparr>)"
            using i1 by (simp add: idle_def call_def)
          ultimately have "settled env
              (PerformPartitionPostinstall_loop env (?u\<lparr>current_partition := ?k + 1\<rparr>))"
            using "2.IH"(2) [OF skip path mounted unmounted] by simp
          then show ?thesis using skip path \<open>fst ?m\<close> True
            by (simp add: PerformPartitionPostinstall_loop.simps [of env this])
        qed
      qed
    qed
  next
    case False
    note runs = this
    have kn: "?k \<le> ?n" using c by (simp add: consistent_def)
    show ?thesis
    proof (cases "?k = ?n")
      case True
      have "completed env (CompletePostinstall env kSuccess this)"
        by (rule CompletePostinstall_completed [OF c i])
      then show ?thesis using runs True
        by (simp add: PerformPartitionPostinstall_loop.simps [of env this] settled_completed)
    next
      case False
      note more = this
      with kn have lt: "?k < ?n" and ngt: "\<not> ?n < ?k" by simp_all
      have finish: "settled env (Some (CompletePostinstall env error_code (snd ?m)))"
        for error_code
        by (rule settled_completed [OF CompletePostinstall_completed [OF c1 i1]])
      show ?thesis
      proof (cases "fst ?m \<and> \<not> FilePath_IsAbsolute env (postinstall_path ?p)
                    \<and> prefix (fs_mount_dir (snd ?m))
                         (FilePath_Append env (fs_mount_dir (snd ?m)) (postinstall_path ?p))")
        case False
        then show ?thesis using runs more ngt finish
          by (auto simp: PerformPartitionPostinstall_loop.simps [of env this] Let_def)
      next
        case True
        let ?abs = "FilePath_Append env (fs_mount_dir (snd ?m)) (postinstall_path ?p)"
        let ?command = "[?abs, to_string (unat (target_slot (install_plan (snd ?m)))),
                   to_string kPostinstallStatusFd]
                  @ (if length (partitions (install_plan (snd ?m))) = 1
                        \<and> \<not> switch_slot_on_reboot (install_plan (snd ?m))
                        \<and> prefix (kPrefsManifestBytes env) (download_url (install_plan (snd ?m)))
                     then [''1''] else [])"
        let ?e = "(call (ExecFlags ?command) (snd ?m))
                    \<lparr>current_command := ExecFlags_returns env (clock (snd ?m)) ?command\<rparr>"
        have "consistent env ?e
                = consistent env ((snd ?m)\<lparr>calls := calls (snd ?m) @ [ExecFlags ?command]\<rparr>)"
          by (rule consistent_cong) (simp_all add: call_def)
        then have ce: "consistent env ?e"
          using consistent_calls_append [OF c1, of "[ExecFlags ?command]"] by simp
        have ke: "current_partition ?e = ?k" "install_plan ?e = install_plan this"
          by (simp_all add: call_def k1)
        from True have t: "\<not> \<not> fst ?m" "\<not> FilePath_IsAbsolute env (postinstall_path ?p)"
          "\<not> \<not> prefix (fs_mount_dir (snd ?m)) ?abs" by simp_all
        show ?thesis
        proof (cases "current_command ?e = 0")
          case True
          have "settled env (CompletePartitionPostinstall env 1 ?e)"
            using "2.IH"(4) [OF runs more ngt refl refl refl t(1,2) refl t(3) refl refl True ce]
              lt ke by simp
          then show ?thesis using runs more ngt t True
            by (simp add: PerformPartitionPostinstall_loop.simps [of env this] Let_def)
        next
          case False
          let ?w = "?e\<lparr>progress_fd := GetPipeFd_returns env (clock ?e),
                       progress_controller := True\<rparr>"
          have "consistent env ?w = consistent env ?e"
            by (rule consistent_cong) simp_all
          then have "consistent env ?w" using ce by simp
          then have "waiting env ?w" using False lt ke by (simp add: waiting_def)
          then have "settled env (Some ?w)" by (simp add: settled_def)
          then show ?thesis using runs more ngt t False
            by (simp add: PerformPartitionPostinstall_loop.simps [of env this] Let_def)
        qed
      qed
    qed
  qed
next
  case (3 env return_code this)
  note c = "3.prems"(1) and lt = "3.prems"(2)
  let ?x = "Cleanup env (this\<lparr>current_command := 0\<rparr>)"
  obtain cs where cs: "?x = this\<lparr>current_command := 0, calls := calls this @ cs,
        progress_fd := - 1, progress_controller := False, progress_buffer := []\<rparr>"
      "list_all (quiet env) cs"
    using Cleanup_frame [of env "this\<lparr>current_command := 0\<rparr>"] by auto
  have "consistent env ?x = consistent env (this\<lparr>calls := calls this @ cs\<rparr>)"
    by (rule consistent_cong) (simp_all add: cs(1))
  then have cx: "consistent env ?x"
    using consistent_calls_append [OF c cs(2)] by simp
  have ix: "idle ?x" by (simp add: cs(1) idle_def)
  have kx: "current_partition ?x = current_partition this"
    "install_plan ?x = install_plan this" "partition_weight ?x = partition_weight this"
    by (simp_all add: cs(1))
  have len: "length (partition_weight this) = length (partitions (install_plan this))"
    using c by (simp add: consistent_def)
  let ?code = "if return_code = 4 then kPostinstallFirmwareRONotUpdatable
               else if return_code = 3 then kPostinstallBootedFromFirmwareB
               else kPostinstallRunnerError"
  show ?case
  proof (cases "return_code \<noteq> 0
                \<and> \<not> postinstall_optional (partitions (install_plan ?x) ! current_partition ?x)")
    case True
    have "completed env (CompletePostinstall env ?code ?x)"
      by (rule CompletePostinstall_completed [OF cx ix])
    then show ?thesis using True lt kx
      by (simp add: CompletePartitionPostinstall.simps [of env return_code this] Let_def
            settled_completed)
  next
    case False
    let ?a = "?x\<lparr>accumulated_weight :=
                     round_to_double env
                       (accumulated_weight ?x + partition_weight ?x ! current_partition ?x),
                   current_partition := current_partition ?x + 1\<rparr>"
    have n1: "\<not> (return_code \<noteq> 0
                \<and> length (partitions (install_plan ?x)) \<le> current_partition ?x)"
      using lt kx by simp
    have n3: "\<not> length (partition_weight ?x) \<le> current_partition ?x"
      using lt kx len by simp
    have ca: "consistent env ?a"
      using consistent_advance [OF cx] lt kx by simp
    obtain ps where ps: "ReportProgress env (Finite 0) ?a = ?a\<lparr>calls := calls ?a @ ps\<rparr>"
        "list_all (quiet env) ps"
      using ReportProgress_frame [OF ca, of "Finite 0"] by blast
    have cr: "consistent env (ReportProgress env (Finite 0) ?a)"
      unfolding ps(1) by (rule consistent_calls_append [OF ca ps(2)])
    have ir: "idle (ReportProgress env (Finite 0) ?a)"
      unfolding ps(1) using ix by (simp add: idle_def)
    have "settled env (PerformPartitionPostinstall env (ReportProgress env (Finite 0) ?a))"
      by (rule "3.IH" [OF refl refl refl refl n1 False n3 cr ir])
    moreover have "\<not> length (partitions (install_plan ?x)) \<le> current_partition ?x"
      using lt kx by simp
    ultimately show ?thesis using False n3
      by (auto simp: CompletePartitionPostinstall.simps [of env return_code this] Let_def)
  qed
qed


lemma InitPartitionWeights_result:
  "InitPartitionWeights rnd flag ps t0 = (ps1, ws, total_w) \<Longrightarrow>
     ws = map weight_of ps1 \<and> total_w = foldl (\<lambda>t w. rnd (t + w)) t0 ws
     \<and> length ps1 = length ps"
proof (induction ps arbitrary: t0 ps1 ws total_w)
  case Nil
  then show ?case by simp
next
  case (Cons part ps)
  let ?part1 = "if \<not> flag \<and> postinstall_optional part
                then part\<lparr>run_postinstall := False\<rparr> else part"
  let ?w = "if run_postinstall ?part1 then 1 else 0 :: real"
  obtain rest1 weights total1 where
    rec: "InitPartitionWeights rnd flag ps (rnd (t0 + ?w)) = (rest1, weights, total1)"
    by (cases "InitPartitionWeights rnd flag ps (rnd (t0 + ?w))") auto
  from Cons.IH [OF rec] have ih: "weights = map weight_of rest1"
    "total1 = foldl (\<lambda>t w. rnd (t + w)) (rnd (t0 + ?w)) weights" "length rest1 = length ps"
    by simp_all
  from Cons.prems rec have "ps1 = ?part1 # rest1" "ws = ?w # weights" "total_w = total1"
    by (simp_all add: Let_def)
  with ih show ?case by (simp add: weight_of_def)
qed

lemma weights_step_settles:
  assumes q: "list_all (quiet env) (calls t)" and i: "idle t" and k: "current_partition t = 0"
    and s: "powerwash_scheduled t \<longrightarrow>
              powerwash_required (install_plan t) \<and> SchedulePowerwash \<in> set (calls t)"
  shows "settled env
           (case InitPartitionWeights (round_to_double env) (run_post_install (install_plan t))
                   (partitions (install_plan t)) 0 of
              (ps1, ws, total_w) \<Rightarrow>
                PerformPartitionPostinstall env
                  (ReportProgress env (Finite 0)
                     (t\<lparr>install_plan := (install_plan t)\<lparr>partitions := ps1\<rparr>,
                        partition_weight := ws,
                        total_weight := total_w,
                        accumulated_weight := 0\<rparr>)))"
proof -
  obtain ps1 ws total_w where
    init: "InitPartitionWeights (round_to_double env) (run_post_install (install_plan t))
             (partitions (install_plan t)) 0 = (ps1, ws, total_w)"
    by (cases "InitPartitionWeights (round_to_double env) (run_post_install (install_plan t))
             (partitions (install_plan t)) 0") auto
  from InitPartitionWeights_result [OF init]
  have w: "ws = map weight_of ps1" "total_w = rounded_sum (round_to_double env) ws"
    by (simp_all add: rounded_sum_def)
  let ?te = "t\<lparr>install_plan := (install_plan t)\<lparr>partitions := ps1\<rparr>,
                partition_weight := ws, total_weight := total_w, accumulated_weight := 0\<rparr>"
  have c4: "consistent env ?te"
    unfolding consistent_def using q k s w by (simp add: rounded_sum_Nil)
  have i4: "idle ?te" using i by (simp add: idle_def)
  obtain ps where ps: "ReportProgress env (Finite 0) ?te = ?te\<lparr>calls := calls ?te @ ps\<rparr>"
      "list_all (quiet env) ps"
    using ReportProgress_frame [OF c4, of "Finite 0"] by blast
  have "consistent env (ReportProgress env (Finite 0) ?te)"
    unfolding ps(1) by (rule consistent_calls_append [OF c4 ps(2)])
  moreover have "idle (ReportProgress env (Finite 0) ?te)"
    unfolding ps(1) using i4 by (simp add: idle_def)
  ultimately have "settled env
      (PerformPartitionPostinstall env (ReportProgress env (Finite 0) ?te))"
    by (rule runner_settles(1))
  then show ?thesis by (simp add: init)
qed

lemma PerformAction_settles:
  assumes q: "list_all (quiet env) (calls this)" and i: "idle this"
    and s: "\<not> powerwash_scheduled this" and k: "current_partition this = 0"
  shows "settled env (PerformAction env plan this)"
proof -
  define map_all where "map_all \<longleftrightarrow> VirtualAbFeatureFlag_IsEnabled env \<and> \<not> kIsRecovery env
                     \<and> (partitions plan \<noteq> [] \<or> switch_slot_on_reboot plan)"
  define tb where "tb = (if map_all then call MapAllPartitions (this\<lparr>install_plan := plan\<rparr>)
                         else this\<lparr>install_plan := plan\<rparr>)"
  define tc where "tc = (if powerwash_required plan then call SchedulePowerwash tb else tb)"
  define td where "td = (if powerwash_required plan then tc\<lparr>powerwash_scheduled := True\<rparr>
                         else tc)"
  have eq: "PerformAction env plan this =
      (if map_all \<and> \<not> MapAllPartitions_returns env (clock (this\<lparr>install_plan := plan\<rparr>))
       then Some (CompletePostinstall env kPostInstallMountError tb)
       else if powerwash_required plan \<and> \<not> SchedulePowerwash_returns env (clock tb)
       then Some (CompletePostinstall env kPostinstallPowerwashError tc)
       else (case InitPartitionWeights (round_to_double env) (run_post_install (install_plan td))
                   (partitions (install_plan td)) 0 of
              (ps1, ws, total_w) \<Rightarrow>
                PerformPartitionPostinstall env
                  (ReportProgress env (Finite 0)
                     (td\<lparr>install_plan := (install_plan td)\<lparr>partitions := ps1\<rparr>,
                         partition_weight := ws,
                         total_weight := total_w,
                         accumulated_weight := 0\<rparr>))))"
  proof (cases map_all)
    case True
    then have "VirtualAbFeatureFlag_IsEnabled env \<and> \<not> kIsRecovery env
                 \<and> (partitions plan \<noteq> [] \<or> switch_slot_on_reboot plan)"
      by (simp add: map_all_def)
    with True show ?thesis
      by (cases "powerwash_required plan")
         (simp_all add: PerformAction_def Let_def tb_def tc_def td_def call_def)
  next
    case False
    then have "\<not> (VirtualAbFeatureFlag_IsEnabled env \<and> \<not> kIsRecovery env
                 \<and> (partitions plan \<noteq> [] \<or> switch_slot_on_reboot plan))"
      by (simp add: map_all_def)
    with False show ?thesis
      by (cases "powerwash_required plan")
         (auto simp: PerformAction_def Let_def tb_def tc_def td_def call_def)
  qed
  have qb: "list_all (quiet env) (calls tb)" "idle tb" "\<not> powerwash_scheduled tb"
    "current_partition tb = 0" "install_plan tb = plan"
    using q i s k by (simp_all add: tb_def call_def idle_def)
  have qc: "list_all (quiet env) (calls tc)" "idle tc" "\<not> powerwash_scheduled tc"
    "current_partition tc = 0" "install_plan tc = plan"
    "powerwash_required plan \<longrightarrow> SchedulePowerwash \<in> set (calls tc)"
    using qb by (simp_all add: tc_def call_def idle_def)
  have qd: "list_all (quiet env) (calls td)" "idle td" "current_partition td = 0"
    "powerwash_scheduled td \<longrightarrow>
       powerwash_required (install_plan td) \<and> SchedulePowerwash \<in> set (calls td)"
    using qc by (simp_all add: td_def idle_def)
  have "completed env (CompletePostinstall env error_code tb)" for error_code
    using qb by (intro CompletePostinstall_completes) simp_all
  moreover have "completed env (CompletePostinstall env error_code tc)" for error_code
    using qc by (intro CompletePostinstall_completes) simp_all
  ultimately show ?thesis
    unfolding eq using weights_step_settles [OF qd]
    by (simp add: settled_completed)
qed

lemma handle_event_settles:
  assumes s: "waiting env this \<or> completed env this"
  shows "settled env (handle_event env ev this)"
  using s
proof
  assume "completed env this"
  then have "idle this" by (simp add: completed_def)
  then have "handle_event env ev this = Some this"
    by (cases ev) (simp_all add: handle_event_def idle_def)
  then show ?thesis using \<open>completed env this\<close> by (simp add: settled_def)
next
  assume w: "waiting env this"
  then have c: "consistent env this" and cmd: "current_command this \<noteq> 0"
    and watch: "progress_controller this"
    and lt: "current_partition this < length (partitions (install_plan this))"
    by (simp_all add: waiting_def)
  show ?thesis
  proof (cases ev)
    case (ChildExit return_code)
    then show ?thesis using cmd runner_settles(3) [OF c lt]
      by (simp add: handle_event_def)
  next
    case (StatusLine line)
    have "waiting env (snd (ProcessProgressLine env line this))"
    proof (cases "\<exists>fraction. sscanf_global_progress env line = Some fraction \<and> fraction \<noteq> NaN")
      case False
      then have "snd (ProcessProgressLine env line this) = this"
        by (auto simp: ProcessProgressLine_def split: option.splits)
      then show ?thesis using w by simp
    next
      case True
      then obtain fraction where
        f: "sscanf_global_progress env line = Some fraction" "fraction \<noteq> NaN" by blast
      obtain ps where ps: "ReportProgress env fraction this = this\<lparr>calls := calls this @ ps\<rparr>"
          "list_all (quiet env) ps"
        using ReportProgress_frame [OF c, of fraction] by blast
      have "consistent env (this\<lparr>calls := calls this @ ps\<rparr>)"
        by (rule consistent_calls_append [OF c ps(2)])
      then have "waiting env (this\<lparr>calls := calls this @ ps\<rparr>)"
        using cmd watch lt by (simp add: waiting_def)
      then show ?thesis using f ps(1) by (simp add: ProcessProgressLine_def)
    qed
    then show ?thesis using StatusLine watch
      by (simp add: handle_event_def settled_def)
  qed
qed

lemma handle_events_settles:
  "waiting env this \<or> completed env this \<Longrightarrow> settled env (handle_events env evs this)"
proof (induction evs arbitrary: this)
  case Nil
  then show ?case by (simp add: settled_def)
next
  case (Cons ev evs)
  from handle_event_settles [OF Cons.prems] obtain this1 where
    "handle_event env ev this = Some this1" "waiting env this1 \<or> completed env this1"
    by (auto simp: settled_def)
  then show ?case using Cons.IH by simp
qed

lemma run_settles: "settled env (run env mount_dir has_delegate plan evs)"
proof -
  obtain cs where "new_runner env mount_dir has_delegate
      = \<lparr>install_plan = empty_plan, fs_mount_dir = mount_dir, partition_weight = [],
         total_weight = 0, accumulated_weight = 0, delegate = has_delegate,
         current_partition = 0, current_command = 0, progress_fd = - 1,
         progress_controller = False, progress_buffer = [], powerwash_scheduled = False,
         calls = [] @ cs\<rparr>" "list_all (quiet env) cs"
    using EnsureUnmounted_frame [of env "\<lparr>install_plan = empty_plan, fs_mount_dir = mount_dir,
         partition_weight = [], total_weight = 0, accumulated_weight = 0,
         delegate = has_delegate, current_partition = 0, current_command = 0,
         progress_fd = - 1, progress_controller = False, progress_buffer = [],
         powerwash_scheduled = False, calls = []\<rparr>"]
    by (auto simp: new_runner_def)
  then have "settled env (PerformAction env plan (new_runner env mount_dir has_delegate))"
    by (intro PerformAction_settles) (simp_all add: idle_def)
  then obtain this where "PerformAction env plan (new_runner env mount_dir has_delegate) = Some this"
    "waiting env this \<or> completed env this"
    by (auto simp: settled_def)
  then show ?thesis using handle_events_settles [of env this evs]
    by (simp add: run_def)
qed

lemma settled_progress_range:
  assumes "waiting env this \<or> completed env this" "ProgressUpdate v \<in> set (calls this)"
    and r: "rounding (round_to_double env)"
  shows "0 \<le> v \<and> v \<le> 1"
  using assms(1)
proof
  assume "waiting env this"
  then have "list_all (quiet env) (calls this)" by (simp add: waiting_def consistent_def)
  with assms(2) have "quiet env (ProgressUpdate v)" unfolding list_all_iff by blast
  then show ?thesis using r by simp
next
  assume "completed env this"
  then obtain pre error_code where
    "calls this = pre @ (if powerwash_scheduled this \<and> error_code \<noteq> kSuccess
                       \<and> error_code \<noteq> kUpdatedButNotActive
                    then [CancelPowerwash] else []) @ [ActionComplete error_code]"
    "list_all (quiet env) pre"
    by (auto simp: completed_def)
  with assms(2) have "quiet env (ProgressUpdate v)"
    by (auto simp: list_all_iff split: if_splits)
  then show ?thesis using r by simp
qed

section \<open>Properties of the postinstall runner\<close>

lemmas runner_defs =
  run_def new_runner_def PerformAction_def handle_event_def ProcessProgressLine_def
  ReportProgress_def CompletePostinstall_def Cleanup_def MountPartition_def
  EnsureUnmounted_def call_def clock_def sample_env_def sample_plan_def
  sample_partition_def sample_sscanf_def round_to_quarter_def empty_plan_def
  system_partition_def optional_partition_def absolute_partition_def sample_runner_def
  PerformPartitionPostinstall.simps PerformPartitionPostinstall_loop.simps
  CompletePartitionPostinstall.simps Let_def

lemma rounding_round_to_quarter: "rounding round_to_quarter"
proof -
  have mono: "round_to_quarter x \<le> round_to_quarter y" if "x \<le> y" for x y
  proof -
    from that have "\<lfloor>4 * x + 1 / 2\<rfloor> \<le> \<lfloor>4 * y + 1 / 2\<rfloor>" by (intro floor_mono) simp
    then show ?thesis by (simp add: round_to_quarter_def divide_right_mono)
  qed
  have idem: "round_to_quarter (round_to_quarter x) = round_to_quarter x" for x
  proof -
    let ?k = "\<lfloor>4 * x + 1 / 2\<rfloor>"
    have "\<lfloor>of_int ?k + (1 / 2 :: real)\<rfloor> = ?k" by linarith
    then show ?thesis by (simp add: round_to_quarter_def)
  qed
  have "round_to_quarter 0 = 0" "round_to_quarter 1 = 1"
    by (simp_all add: round_to_quarter_def)
  with mono idem show ?thesis by (simp add: rounding_def)
qed

lemma sample_run_exit_3:
  "map_option (\<lambda>this. (calls this, powerwash_scheduled this))
     (run (sample_env 42 True True) ''/postinstall'' True
        (sample_plan [system_partition] True True)
        [StatusLine ''global_progress 0.5'', ChildExit 3])
   = Some ([MapAllPartitions, SchedulePowerwash, ProgressUpdate 0,
            SetBlockDeviceReadOnly ''/dev/block/system'' True,
            MountFilesystem ''/dev/block/system'' ''/postinstall'' ''ext4'' [],
            ExecFlags [''/postinstall/bin/postinst'', to_string 1,
                       to_string kPostinstallStatusFd],
            ProgressUpdate (1 / 2), UnmountFilesystem ''/postinstall'',
            CancelPowerwash, ActionComplete kPostinstallBootedFromFirmwareB], True)"
  by (simp add: runner_defs)

lemma CompletePostinstall_failure_calls:
  assumes "error_code \<noteq> kSuccess"
  shows "\<exists>pre. calls (CompletePostinstall env error_code this)
                 = calls this @ pre @ [ActionComplete error_code]
          \<and> (\<forall>c \<in> set pre. \<forall>command. c \<noteq> ExecFlags command)
          \<and> (\<forall>c \<in> set pre. \<forall>e. c \<noteq> ActionComplete e)
          \<and> current_command (CompletePostinstall env error_code this) = current_command this"
  using assms
  by (intro exI [of _ "(if HasOutputPipe env then [SetOutputObject] else [])
        @ (if error_code \<noteq> kUpdatedButNotActive \<and> powerwash_scheduled this
           then [CancelPowerwash] else [])"])
     (simp add: CompletePostinstall_def Let_def call_def)

text \<open>
  C3, as stated, fails: \<^verbatim>\<open>sscanf\<close> reads the fraction of \<open>global_progress nan\<close> as a double,
  a NaN, but the runner does not report it as 0: it ignores the line, where a call of
  \<^verbatim>\<open>ReportProgress\<close> with it would have told the delegate.
\<close>

theorem nan_line_is_ignored_counterexample:
  "sscanf_global_progress (sample_env 42 True True) ''global_progress nan'' = Some NaN
   \<and> ProcessProgressLine (sample_env 42 True True) ''global_progress nan''
       (sample_runner (sample_plan [system_partition] True False) 42 0)
     = (False, sample_runner (sample_plan [system_partition] True False) 42 0)
   \<and> calls (ReportProgress (sample_env 42 True True) NaN
              (sample_runner (sample_plan [system_partition] True False) 42 0))
     = [ProgressUpdate 0]
   \<and> run (sample_env 42 True True) ''/postinstall'' True
        (sample_plan [system_partition] True False) [StatusLine ''global_progress nan'']
     = run (sample_env 42 True True) ''/postinstall'' True
         (sample_plan [system_partition] True False) []"
  by (simp add: runner_defs)

text \<open>
  C3, amended: the runner acts on a line exactly when \<^verbatim>\<open>sscanf\<close> with the format
  \<^verbatim>\<open>"global_progress %lf"\<close> reads a fraction from it that is not a NaN: it then calls
  \<^verbatim>\<open>ReportProgress\<close> with that fraction. Every other line, one whose fraction is a NaN
  included, is ignored. \<^verbatim>\<open>ReportProgress\<close> clamps the fraction to \<open>[0, 1]\<close>: an infinity
  (and a NaN, were it called with one) and a negative value count as 0, a value above 1
  as 1; with a delegate, a current partition and a total weight that is not 0 it delivers
  \<open>(accumulated_weight + weight[i] * frac) / total_weight\<close>.
\<close>

theorem ProcessProgressLine_reports:
  "(sscanf_global_progress env line = Some fraction \<and> fraction \<noteq> NaN \<longrightarrow>
      ProcessProgressLine env line this = (True, ReportProgress env fraction this))
   \<and> (sscanf_global_progress env line = None \<or> sscanf_global_progress env line = Some NaN \<longrightarrow>
      ProcessProgressLine env line this = (False, this))
   \<and> 0 \<le> clamp_fraction fraction \<and> clamp_fraction fraction \<le> 1
   \<and> clamp_fraction NaN = 0 \<and> clamp_fraction PosInf = 0 \<and> clamp_fraction NegInf = 0
   \<and> (x < 0 \<longrightarrow> clamp_fraction (Finite x) = 0)
   \<and> (1 < x \<longrightarrow> clamp_fraction (Finite x) = 1)
   \<and> (0 \<le> x \<and> x \<le> 1 \<longrightarrow> clamp_fraction (Finite x) = x)
   \<and> (delegate this \<and> current_partition this < length (partition_weight this)
        \<and> total_weight this \<noteq> 0 \<longrightarrow>
        ReportProgress env fraction this
          = call (ProgressUpdate
                    (round_to_double env
                       (round_to_double env
                          (accumulated_weight this
                           + round_to_double env
                               (partition_weight this ! current_partition this
                                * clamp_fraction fraction))
                        / total_weight this))) this)"
  using clamp_fraction_range [of fraction]
  by (auto simp: ProcessProgressLine_def ReportProgress_def Let_def)

theorem ProcessProgressLine_reports_witness:
  "sscanf_global_progress (sample_env 42 True True) ''global_progress 0.5'' = Some (Finite (1 / 2))
   \<and> Finite (1 / 2) \<noteq> NaN
   \<and> sscanf_global_progress (sample_env 42 True True) ''hello'' = None
   \<and> delegate (sample_runner (sample_plan [system_partition] True False) 42 0)
   \<and> ProcessProgressLine (sample_env 42 True True) ''global_progress 0.5''
       (sample_runner (sample_plan [system_partition] True False) 42 0)
     = (True, call (ProgressUpdate (1 / 2))
                (sample_runner (sample_plan [system_partition] True False) 42 0))
   \<and> ProcessProgressLine (sample_env 42 True True) ''hello''
       (sample_runner (sample_plan [system_partition] True False) 42 0)
     = (False, sample_runner (sample_plan [system_partition] True False) 42 0)
   \<and> clamp_fraction (Finite 7) = 1"
proof -
  let ?r = "sample_runner (sample_plan [system_partition] True False) 42 0"
  have h: "sscanf_global_progress (sample_env 42 True True) ''global_progress 0.5''
             = Some (Finite (1 / 2))"
    "sscanf_global_progress (sample_env 42 True True) ''hello'' = None"
    "delegate ?r \<and> current_partition ?r < length (partition_weight ?r) \<and> total_weight ?r \<noteq> 0"
    by (simp_all add: sample_env_def sample_sscanf_def sample_runner_def)
  from ProcessProgressLine_reports [of "sample_env 42 True True" "''global_progress 0.5''"
      "Finite (1 / 2)" ?r 7]
    ProcessProgressLine_reports [of "sample_env 42 True True" "''hello''" "Finite (1 / 2)" ?r 7] h
  show ?thesis
    by (simp add: sample_runner_def sample_env_def round_to_quarter_def)
qed

text \<open>
  C4: whatever the plan and whatever lines and exit codes arrive, the run goes through
  (it never indexes a vector out of range) and every value it delivers to the delegate
  through \<^verbatim>\<open>ProgressUpdate\<close> lies in \<open>[0, 1]\<close>, for every arithmetic that rounds
  monotonically and leaves 0, 1 and rounded values as they are. The weighting is this:
  \<^verbatim>\<open>PerformAction\<close> gives weight 1 to a partition with \<^verbatim>\<open>run_postinstall\<close> and 0 to
  the others, and \<^verbatim>\<open>ReportProgress\<close> delivers 1 when the total weight is 0 (or
  no partition is current) and \<open>(accumulated_weight + weight[i] * frac) / total_weight\<close>
  otherwise.
\<close>

theorem progress_updates_in_unit_interval:
  assumes "rounding (round_to_double env)"
  shows "(\<exists>this. run env mount_dir has_delegate plan evs = Some this
            \<and> (\<forall>v. ProgressUpdate v \<in> set (calls this) \<longrightarrow> 0 \<le> v \<and> v \<le> 1))
         \<and> fst (snd (InitPartitionWeights (round_to_double env) flag ps 0))
             = map (\<lambda>part. if run_postinstall part then 1 else 0)
                 (fst (InitPartitionWeights (round_to_double env) flag ps 0))
         \<and> (delegate that \<longrightarrow>
              ReportProgress env fraction that =
                call (ProgressUpdate
                        (if length (partition_weight that) \<le> current_partition that
                            \<or> total_weight that = 0
                         then 1
                         else round_to_double env
                                (round_to_double env
                                   (accumulated_weight that
                                    + round_to_double env
                                        (partition_weight that ! current_partition that
                                         * clamp_fraction fraction))
                                 / total_weight that))) that)"
proof -
  obtain this where res: "run env mount_dir has_delegate plan evs = Some this"
    "waiting env this \<or> completed env this"
    using run_settles [of env mount_dir has_delegate plan evs] by (auto simp: settled_def)
  have "\<forall>v. ProgressUpdate v \<in> set (calls this) \<longrightarrow> 0 \<le> v \<and> v \<le> 1"
    using settled_progress_range [OF res(2) _ assms] by blast
  moreover obtain ps1 ws total_w where
    init: "InitPartitionWeights (round_to_double env) flag ps 0 = (ps1, ws, total_w)"
    by (cases "InitPartitionWeights (round_to_double env) flag ps 0") auto
  moreover have "ws = map (\<lambda>part. if run_postinstall part then 1 else 0) ps1"
    using InitPartitionWeights_result [OF init] by (simp add: weight_of_def [abs_def])
  ultimately show ?thesis using res(1)
    by (simp add: ReportProgress_def Let_def)
qed

theorem progress_updates_in_unit_interval_witness:
  "rounding (round_to_double (sample_env 42 True True))
   \<and> delegate (sample_runner (sample_plan [system_partition] True True) 42 0)
   \<and> (\<exists>this. run (sample_env 42 True True) ''/postinstall'' True
                (sample_plan [system_partition] True True)
                [StatusLine ''global_progress 0.5'', ChildExit 3] = Some this
          \<and> ProgressUpdate (1 / 2) \<in> set (calls this)
          \<and> (\<forall>v. ProgressUpdate v \<in> set (calls this) \<longrightarrow> 0 \<le> v \<and> v \<le> 1))
   \<and> ReportProgress (sample_env 42 True True) (Finite 7)
        (sample_runner (sample_plan [system_partition] True True) 42 0)
      = call (ProgressUpdate 1) (sample_runner (sample_plan [system_partition] True True) 42 0)"
proof -
  have r: "rounding (round_to_double (sample_env 42 True True))"
    using rounding_round_to_quarter by (simp add: sample_env_def)
  have d: "delegate (sample_runner (sample_plan [system_partition] True True) 42 0)"
    by (simp add: sample_runner_def)
  from progress_updates_in_unit_interval [OF r, of "''/postinstall''" True
      "sample_plan [system_partition] True True"
      "[StatusLine ''global_progress 0.5'', ChildExit 3]" True "[]"
      "sample_runner (sample_plan [system_partition] True True) 42 0" "Finite 7"]
    sample_run_exit_3 r d
  show ?thesis
    by (auto simp: sample_runner_def sample_env_def round_to_quarter_def call_def)
qed

text \<open>
  C5: when the child of the current partition exits with a code that is not 0 and the
  partition's postinstall is not optional, the runner completes, without launching
  anything more, with \<open>kPostinstallBootedFromFirmwareB\<close> for code 3,
  \<open>kPostinstallFirmwareRONotUpdatable\<close> for code 4 and \<open>kPostinstallRunnerError\<close> for
  every other code; when it is optional the runner does what it does for exit code 0:
  it goes on with the next partition.
\<close>

theorem CompletePartitionPostinstall_exit_code:
  assumes "current_partition this < length (partitions (install_plan this))"
    and "return_code \<noteq> 0"
  shows "(\<not> postinstall_optional (partitions (install_plan this) ! current_partition this) \<longrightarrow>
           (\<exists>this1 pre.
              CompletePartitionPostinstall env return_code this = Some this1
              \<and> calls this1 = calls this @ pre
                   @ [ActionComplete
                        (if return_code = 3 then kPostinstallBootedFromFirmwareB
                         else if return_code = 4 then kPostinstallFirmwareRONotUpdatable
                         else kPostinstallRunnerError)]
              \<and> (\<forall>c \<in> set pre. \<forall>command. c \<noteq> ExecFlags command)
              \<and> (\<forall>c \<in> set pre. \<forall>e. c \<noteq> ActionComplete e)
              \<and> current_command this1 = 0
              \<and> current_partition this1 = current_partition this))
       \<and> (postinstall_optional (partitions (install_plan this) ! current_partition this) \<longrightarrow>
            CompletePartitionPostinstall env return_code this
              = CompletePartitionPostinstall env 0 this
            \<and> (current_partition this < length (partition_weight this) \<longrightarrow>
                 CompletePartitionPostinstall env return_code this
                   = PerformPartitionPostinstall env
                       (ReportProgress env (Finite 0)
                          ((Cleanup env (this\<lparr>current_command := 0\<rparr>))
                             \<lparr>accumulated_weight :=
                                 round_to_double env
                                   (accumulated_weight this
                                    + partition_weight this ! current_partition this),
                              current_partition := current_partition this + 1\<rparr>))))"
proof -
  let ?x = "Cleanup env (this\<lparr>current_command := 0\<rparr>)"
  let ?code = "if return_code = 3 then kPostinstallBootedFromFirmwareB
               else if return_code = 4 then kPostinstallFirmwareRONotUpdatable
               else kPostinstallRunnerError"
  obtain cs where cs: "?x = this\<lparr>current_command := 0, calls := calls this @ cs,
        progress_fd := - 1, progress_controller := False, progress_buffer := []\<rparr>"
      "\<forall>c \<in> set cs. \<forall>command. c \<noteq> ExecFlags command" "list_all (quiet env) cs"
    using Cleanup_frame [of env "this\<lparr>current_command := 0\<rparr>"] by auto
  have kx: "current_partition ?x = current_partition this"
    "install_plan ?x = install_plan this" "partition_weight ?x = partition_weight this"
    "accumulated_weight ?x = accumulated_weight this" "current_command ?x = 0"
    "calls ?x = calls this @ cs"
    by (simp_all add: cs(1))
  have ncs: "\<forall>c \<in> set cs. \<forall>e. c \<noteq> ActionComplete e"
    using cs(3) unfolding list_all_iff by auto
  have code: "?code \<noteq> kSuccess" by simp
  show ?thesis
  proof (cases "postinstall_optional (partitions (install_plan this) ! current_partition this)")
    case False
    obtain pre where pre:
      "calls (CompletePostinstall env ?code ?x) = calls ?x @ pre @ [ActionComplete ?code]"
      "\<forall>c \<in> set pre. \<forall>command. c \<noteq> ExecFlags command"
      "\<forall>c \<in> set pre. \<forall>e. c \<noteq> ActionComplete e"
      "current_command (CompletePostinstall env ?code ?x) = current_command ?x"
      using CompletePostinstall_failure_calls [OF code, of env ?x] by blast
    have "CompletePartitionPostinstall env return_code this
            = Some (CompletePostinstall env ?code ?x)"
      using assms False kx(1,2)
      by (simp add: CompletePartitionPostinstall.simps [of env return_code this] Let_def)
    moreover have "calls (CompletePostinstall env ?code ?x)
                     = calls this @ (cs @ pre) @ [ActionComplete ?code]"
      using pre(1) kx(6) by simp
    moreover have "current_partition (CompletePostinstall env ?code ?x) = current_partition this"
      using kx(1) by (simp add: CompletePostinstall_def Let_def call_def split: prod.splits)
    ultimately show ?thesis using False pre(2,3,4) cs(2) ncs kx(5)
      by (intro conjI impI exI [of _ "CompletePostinstall env ?code ?x"] exI [of _ "cs @ pre"])
         auto
  next
    case True
    then show ?thesis using assms kx(1,2,3,4)
      by (simp add: CompletePartitionPostinstall.simps [of env return_code this]
            CompletePartitionPostinstall.simps [of env 0 this] Let_def)
  qed
qed

theorem CompletePartitionPostinstall_exit_code_witness:
  "current_partition (sample_runner (sample_plan [system_partition] True False) 42 0)
     < length (partitions (install_plan
         (sample_runner (sample_plan [system_partition] True False) 42 0)))
   \<and> (3::int) \<noteq> 0
   \<and> \<not> postinstall_optional (partitions (sample_plan [system_partition] True False) ! 0)
   \<and> map_option calls
        (CompletePartitionPostinstall (sample_env 42 True True) 3
           (sample_runner (sample_plan [system_partition] True False) 42 0))
      = Some [UnmountFilesystem ''/postinstall'',
              ActionComplete kPostinstallBootedFromFirmwareB]
   \<and> postinstall_optional (partitions (sample_plan [optional_partition] True False) ! 0)
   \<and> CompletePartitionPostinstall (sample_env 42 True True) 7
        (sample_runner (sample_plan [optional_partition] True False) 42 0)
      = CompletePartitionPostinstall (sample_env 42 True True) 0
          (sample_runner (sample_plan [optional_partition] True False) 42 0)"
proof -
  have h: "current_partition (sample_runner (sample_plan [system_partition] True False) 42 0)
     < length (partitions (install_plan
         (sample_runner (sample_plan [system_partition] True False) 42 0)))"
    "current_partition (sample_runner (sample_plan [optional_partition] True False) 42 0)
     < length (partitions (install_plan
         (sample_runner (sample_plan [optional_partition] True False) 42 0)))"
    "(3::int) \<noteq> 0" "(7::int) \<noteq> 0"
    by (simp_all add: sample_runner_def sample_plan_def)
  have o: "\<not> postinstall_optional (partitions (sample_plan [system_partition] True False) ! 0)"
    "postinstall_optional (partitions (sample_plan [optional_partition] True False) ! 0)"
    by (simp_all add: sample_plan_def system_partition_def optional_partition_def
          sample_partition_def)
  have c: "map_option calls
        (CompletePartitionPostinstall (sample_env 42 True True) 3
           (sample_runner (sample_plan [system_partition] True False) 42 0))
      = Some [UnmountFilesystem ''/postinstall'',
              ActionComplete kPostinstallBootedFromFirmwareB]"
    by (simp add: runner_defs)
  from CompletePartitionPostinstall_exit_code [OF h(2,4), of "sample_env 42 True True"]
    CompletePartitionPostinstall_exit_code [OF h(1,3), of "sample_env 42 True True"] h o c
  show ?thesis by (simp add: sample_runner_def sample_plan_def)
qed

text \<open>
  C6, as stated, fails. A partition with an absolute path whose postinstall is not to be
  run is mounted, unmounted and passed over: the run completes with
  \<open>kUpdatedButNotActive\<close>, not with \<open>kPostinstallRunnerError\<close>. And a partition with an
  absolute path that cannot be mounted makes the run complete with
  \<open>kPostInstallMountError\<close>. In both runs no child is launched.
\<close>

theorem absolute_path_not_checked_counterexample:
  "FilePath_IsAbsolute (sample_env 42 True True) (postinstall_path skipped_absolute_partition)
   \<and> map_option calls
        (run (sample_env 42 True True) ''/postinstall'' True
           (sample_plan [skipped_absolute_partition] False False) [])
      = Some [MapAllPartitions, ProgressUpdate 1,
              SetBlockDeviceReadOnly ''/dev/block/vendor'' True,
              MountFilesystem ''/dev/block/vendor'' ''/postinstall'' ''ext4'' [],
              UnmountFilesystem ''/postinstall'', ActionComplete kUpdatedButNotActive]
   \<and> FilePath_IsAbsolute unmountable_env (postinstall_path absolute_partition)
   \<and> map_option calls
        (run unmountable_env ''/postinstall'' True
           (sample_plan [absolute_partition] False False) [])
      = Some [MapAllPartitions, ProgressUpdate 0,
              SetBlockDeviceReadOnly ''/dev/block/vendor'' True,
              MountFilesystem ''/dev/block/vendor'' ''/postinstall'' ''ext4'' [],
              ActionComplete kPostInstallMountError]"
  by (simp add: runner_defs skipped_absolute_partition_def unmountable_env_def)

text \<open>
  C6, amended: when the runner comes to a partition that is to run its postinstall
  (\<^verbatim>\<open>run_postinstall\<close> true) and whose \<^verbatim>\<open>postinstall_path\<close> is absolute, or joined to the
  mount directory does not begin with the mount directory, it completes without launching
  a child for it: with \<open>kPostinstallRunnerError\<close> when the partition was mounted, with
  \<open>kPostInstallMountError\<close> when mounting it failed.
\<close>

theorem bad_postinstall_path_is_not_run:
  assumes url: "download_url (install_plan this) \<noteq> []"
    and cur: "current_partition this < length (partitions (install_plan this))"
    and runs: "run_postinstall (partitions (install_plan this) ! current_partition this)"
    and bad: "FilePath_IsAbsolute env
                (postinstall_path (partitions (install_plan this) ! current_partition this))
              \<or> \<not> prefix (fs_mount_dir this)
                   (FilePath_Append env (fs_mount_dir this)
                      (postinstall_path (partitions (install_plan this) ! current_partition this)))"
  shows "\<exists>this1 pre error_code.
           PerformPartitionPostinstall env this = Some this1
           \<and> calls this1 = calls this @ pre @ [ActionComplete error_code]
           \<and> (\<forall>c \<in> set pre. \<forall>command. c \<noteq> ExecFlags command)
           \<and> current_command this1 = current_command this
           \<and> (if fst (MountPartition env
                        (partitions (install_plan this) ! current_partition this) this)
               then error_code = kPostinstallRunnerError
               else error_code = kPostInstallMountError)"
proof -
  let ?p = "partitions (install_plan this) ! current_partition this"
  let ?m = "MountPartition env ?p this"
  obtain cs where cs: "snd ?m = this\<lparr>calls := calls this @ cs\<rparr>"
      "\<forall>c \<in> set cs. \<forall>command. c \<noteq> ExecFlags command"
    using MountPartition_frame [of env ?p this] by blast
  have km: "fs_mount_dir (snd ?m) = fs_mount_dir this" "calls (snd ?m) = calls this @ cs"
    "current_command (snd ?m) = current_command this"
    by (simp_all add: cs(1))
  let ?code = "if fst ?m then kPostinstallRunnerError else kPostInstallMountError"
  have code: "?code \<noteq> kSuccess" by simp
  obtain pre where pre:
    "calls (CompletePostinstall env ?code (snd ?m)) = calls (snd ?m) @ pre @ [ActionComplete ?code]"
    "\<forall>c \<in> set pre. \<forall>command. c \<noteq> ExecFlags command"
    "current_command (CompletePostinstall env ?code (snd ?m)) = current_command (snd ?m)"
    using CompletePostinstall_failure_calls [OF code, of env "snd ?m"] by blast
  have "PerformPartitionPostinstall env this = Some (CompletePostinstall env ?code (snd ?m))"
    using url cur runs bad km(1)
    by (auto simp: PerformPartitionPostinstall.simps [of env this]
          PerformPartitionPostinstall_loop.simps [of env this] Let_def)
  moreover have "calls (CompletePostinstall env ?code (snd ?m))
                   = calls this @ (cs @ pre) @ [ActionComplete ?code]"
    using pre(1) km(2) by simp
  ultimately show ?thesis using pre(2,3) cs(2) km(3)
    by (intro exI [of _ "CompletePostinstall env ?code (snd ?m)"] exI [of _ "cs @ pre"]
          exI [of _ ?code]) auto
qed

theorem bad_postinstall_path_is_not_run_witness:
  "download_url (install_plan (sample_runner (sample_plan [absolute_partition] True False) 0 0))
     \<noteq> []
   \<and> FilePath_IsAbsolute (sample_env 42 True True) (postinstall_path absolute_partition)
   \<and> (\<exists>this1 pre.
         PerformPartitionPostinstall (sample_env 42 True True)
           (sample_runner (sample_plan [absolute_partition] True False) 0 0) = Some this1
         \<and> calls this1 = pre @ [ActionComplete kPostinstallRunnerError]
         \<and> (\<forall>c \<in> set pre. \<forall>command. c \<noteq> ExecFlags command)
         \<and> current_command this1 = 0)"
proof -
  let ?r = "sample_runner (sample_plan [absolute_partition] True False) 0 0"
  have h: "download_url (install_plan ?r) \<noteq> []"
    "current_partition ?r < length (partitions (install_plan ?r))"
    "run_postinstall (partitions (install_plan ?r) ! current_partition ?r)"
    "FilePath_IsAbsolute (sample_env 42 True True)
       (postinstall_path (partitions (install_plan ?r) ! current_partition ?r))
     \<or> \<not> prefix (fs_mount_dir ?r)
          (FilePath_Append (sample_env 42 True True) (fs_mount_dir ?r)
             (postinstall_path (partitions (install_plan ?r) ! current_partition ?r)))"
    by (simp_all add: sample_runner_def sample_plan_def absolute_partition_def
          sample_partition_def sample_env_def)
  have m: "fst (MountPartition (sample_env 42 True True)
                  (partitions (install_plan ?r) ! current_partition ?r) ?r)"
    by (simp add: runner_defs)
  have a: "FilePath_IsAbsolute (sample_env 42 True True) (postinstall_path absolute_partition)"
    by (simp add: absolute_partition_def sample_partition_def sample_env_def)
  have c: "calls ?r = []" "current_command ?r = 0" by (simp_all add: sample_runner_def)
  from bad_postinstall_path_is_not_run [OF h] m h(1) a c show ?thesis by auto
qed

text \<open>
  C7: in a run that has signalled completion with a code, the powerwash flag is set only
  if the plan required a powerwash and \<^verbatim>\<open>SchedulePowerwash\<close> was called; if the flag is
  set and the code is neither \<open>kSuccess\<close> nor \<open>kUpdatedButNotActive\<close>, \<^verbatim>\<open>CancelPowerwash\<close>
  is called exactly once, as the last call before the one completion; and if the code is
  \<open>kSuccess\<close> or \<open>kUpdatedButNotActive\<close>, \<^verbatim>\<open>CancelPowerwash\<close> is never called.
\<close>

theorem powerwash_cancelled_exactly_once:
  assumes "run env mount_dir has_delegate plan evs = Some this"
    and "ActionComplete error_code \<in> set (calls this)"
  shows "(powerwash_scheduled this \<longrightarrow>
            powerwash_required (install_plan this) \<and> SchedulePowerwash \<in> set (calls this))
       \<and> (powerwash_scheduled this \<and> error_code \<noteq> kSuccess \<and> error_code \<noteq> kUpdatedButNotActive
            \<longrightarrow> (\<exists>pre. calls this = pre @ [CancelPowerwash, ActionComplete error_code]
                       \<and> CancelPowerwash \<notin> set pre
                       \<and> (\<forall>c. ActionComplete c \<notin> set pre)))
       \<and> (error_code = kSuccess \<or> error_code = kUpdatedButNotActive
            \<longrightarrow> CancelPowerwash \<notin> set (calls this)
                \<and> (\<exists>pre. calls this = pre @ [ActionComplete error_code]
                       \<and> (\<forall>c. ActionComplete c \<notin> set pre)))"
proof -
  have s: "waiting env this \<or> completed env this"
    using run_settles [of env mount_dir has_delegate plan evs] assms(1)
    by (simp add: settled_def)
  have q: "c \<noteq> CancelPowerwash \<and> c \<noteq> ActionComplete e" if "list_all (quiet env) cs" "c \<in> set cs"
    for cs c e
  proof -
    from that have "quiet env c" unfolding list_all_iff by blast
    then show ?thesis by auto
  qed
  have "\<not> waiting env this"
  proof
    assume "waiting env this"
    then have "list_all (quiet env) (calls this)" by (simp add: waiting_def consistent_def)
    from q [OF this assms(2), of error_code] show False by simp
  qed
  with s have c: "completed env this" by simp
  then obtain pre code where
    calls: "calls this = pre @ (if powerwash_scheduled this \<and> code \<noteq> kSuccess
                       \<and> code \<noteq> kUpdatedButNotActive
                    then [CancelPowerwash] else []) @ [ActionComplete code]"
    and pre: "list_all (quiet env) pre"
    by (auto simp: completed_def)
  have pre1: "CancelPowerwash \<notin> set pre" "\<forall>c. ActionComplete c \<notin> set pre"
    using q [OF pre] by blast+
  have "error_code = code"
    using assms(2) pre1 by (auto simp: calls split: if_splits)
  with calls pre1 c show ?thesis
    by (auto simp: completed_def)
qed

theorem powerwash_cancelled_exactly_once_witness:
  "\<exists>this. run (sample_env 42 True True) ''/postinstall'' True
             (sample_plan [system_partition] True True)
             [StatusLine ''global_progress 0.5'', ChildExit 3] = Some this
        \<and> ActionComplete kPostinstallBootedFromFirmwareB \<in> set (calls this)
        \<and> powerwash_scheduled this
        \<and> powerwash_required (install_plan this)
        \<and> (\<exists>pre. calls this
                    = pre @ [CancelPowerwash, ActionComplete kPostinstallBootedFromFirmwareB]
                  \<and> CancelPowerwash \<notin> set pre)"
proof -
  obtain this where t: "run (sample_env 42 True True) ''/postinstall'' True
             (sample_plan [system_partition] True True)
             [StatusLine ''global_progress 0.5'', ChildExit 3] = Some this"
    and m: "ActionComplete kPostinstallBootedFromFirmwareB \<in> set (calls this)"
    and p: "powerwash_scheduled this"
    using sample_run_exit_3 by auto
  from powerwash_cancelled_exactly_once [OF t m] t m p show ?thesis by auto
qed

text \<open>
  C8, as stated, fails: the only partition's script exits with 0 and the slot is to be
  switched, but \<^verbatim>\<open>FinishUpdate\<close> returns false; the runner then calls neither
  \<^verbatim>\<open>SetActiveBootSlot\<close> nor \<^verbatim>\<open>SetWarmReset\<close> nor \<^verbatim>\<open>SetVbmetaDigestForInactiveSlot\<close>.
\<close>

theorem slot_switch_stops_counterexample:
  "map_option calls
     (run (sample_env 42 False True) ''/postinstall'' True
        (sample_plan [system_partition] True False) [ChildExit 0])
   = Some [MapAllPartitions, ProgressUpdate 0,
           SetBlockDeviceReadOnly ''/dev/block/system'' True,
           MountFilesystem ''/dev/block/system'' ''/postinstall'' ''ext4'' [],
           ExecFlags [''/postinstall/bin/postinst'', to_string 1,
                      to_string kPostinstallStatusFd],
           UnmountFilesystem ''/postinstall'', ProgressUpdate 1,
           FinishUpdate False, ActionComplete kPostinstallRunnerError]"
  by (simp add: runner_defs)

text \<open>
  C8, amended: when every postinstall step has succeeded, the runner completes with
  \<open>kSuccess\<close> as the code so far. If the slot is to be switched it calls
  \<^verbatim>\<open>FinishUpdate(powerwash_required)\<close>; if that returns true,
  \<^verbatim>\<open>SetActiveBootSlot(target_slot)\<close>; if that returns true as well,
  \<^verbatim>\<open>SetWarmReset(true)\<close> and then \<^verbatim>\<open>SetVbmetaDigestForInactiveSlot(false)\<close>, and it
  reports \<open>kSuccess\<close>. If \<^verbatim>\<open>FinishUpdate\<close> or \<^verbatim>\<open>SetActiveBootSlot\<close> returns false the
  calls after it are not made and \<open>kPostinstallRunnerError\<close> is reported. If the slot is
  not to be switched none of the four calls is made and \<open>kUpdatedButNotActive\<close> is
  reported.
\<close>

theorem CompletePostinstall_switches_slot:
  "(download_url (install_plan this) \<noteq> []
      \<and> current_partition this = length (partitions (install_plan this)) \<longrightarrow>
      PerformPartitionPostinstall env this = Some (CompletePostinstall env kSuccess this))
   \<and> (switch_slot_on_reboot (install_plan this)
        \<and> FinishUpdate_returns env (length (calls this)) (powerwash_required (install_plan this))
        \<and> SetActiveBootSlot_returns env (length (calls this) + 1) (target_slot (install_plan this))
      \<longrightarrow> calls (CompletePostinstall env kSuccess this)
            = calls this
              @ [FinishUpdate (powerwash_required (install_plan this)),
                 SetActiveBootSlot (target_slot (install_plan this)),
                 SetWarmReset True, SetVbmetaDigestForInactiveSlot False]
              @ (if HasOutputPipe env then [SetOutputObject] else [])
              @ [ActionComplete kSuccess])
   \<and> (switch_slot_on_reboot (install_plan this)
        \<and> \<not> FinishUpdate_returns env (length (calls this)) (powerwash_required (install_plan this))
      \<longrightarrow> calls (CompletePostinstall env kSuccess this)
            = calls this
              @ [FinishUpdate (powerwash_required (install_plan this))]
              @ (if HasOutputPipe env then [SetOutputObject] else [])
              @ (if powerwash_scheduled this then [CancelPowerwash] else [])
              @ [ActionComplete kPostinstallRunnerError])
   \<and> (switch_slot_on_reboot (install_plan this)
        \<and> FinishUpdate_returns env (length (calls this)) (powerwash_required (install_plan this))
        \<and> \<not> SetActiveBootSlot_returns env (length (calls this) + 1)
               (target_slot (install_plan this))
      \<longrightarrow> calls (CompletePostinstall env kSuccess this)
            = calls this
              @ [FinishUpdate (powerwash_required (install_plan this)),
                 SetActiveBootSlot (target_slot (install_plan this))]
              @ (if HasOutputPipe env then [SetOutputObject] else [])
              @ (if powerwash_scheduled this then [CancelPowerwash] else [])
              @ [ActionComplete kPostinstallRunnerError])
   \<and> (\<not> switch_slot_on_reboot (install_plan this)
      \<longrightarrow> calls (CompletePostinstall env kSuccess this)
            = calls this
              @ (if HasOutputPipe env then [SetOutputObject] else [])
              @ [ActionComplete kUpdatedButNotActive])"
proof -
  have "PerformPartitionPostinstall env this = Some (CompletePostinstall env kSuccess this)"
    if "download_url (install_plan this) \<noteq> []"
      "current_partition this = length (partitions (install_plan this))"
    using that
    by (simp add: PerformPartitionPostinstall.simps [of env this]
          PerformPartitionPostinstall_loop.simps [of env this])
  then show ?thesis
    by (simp add: CompletePostinstall_def Let_def call_def clock_def)
qed

theorem CompletePostinstall_switches_slot_witness:
  "download_url (install_plan (sample_runner (sample_plan [system_partition] True False) 0 1))
     \<noteq> []
   \<and> current_partition (sample_runner (sample_plan [system_partition] True False) 0 1)
       = length (partitions (install_plan
           (sample_runner (sample_plan [system_partition] True False) 0 1)))
   \<and> map_option calls
        (PerformPartitionPostinstall (sample_env 42 True True)
           (sample_runner (sample_plan [system_partition] True False) 0 1))
      = Some [FinishUpdate False, SetActiveBootSlot 1, SetWarmReset True,
              SetVbmetaDigestForInactiveSlot False, ActionComplete kSuccess]
   \<and> calls (CompletePostinstall (sample_env 42 True False) kSuccess
               (sample_runner (sample_plan [system_partition] True False) 0 1))
      = [FinishUpdate False, SetActiveBootSlot 1, ActionComplete kPostinstallRunnerError]
   \<and> calls (CompletePostinstall (sample_env 42 True True) kSuccess
               (sample_runner (sample_plan [system_partition] False False) 0 1))
      = [ActionComplete kUpdatedButNotActive]"
proof -
  let ?r = "sample_runner (sample_plan [system_partition] True False) 0 1"
  let ?q = "sample_runner (sample_plan [system_partition] False False) 0 1"
  have h: "download_url (install_plan ?r) \<noteq> []"
    "current_partition ?r = length (partitions (install_plan ?r))"
    by (simp_all add: sample_runner_def sample_plan_def)
  from CompletePostinstall_switches_slot [of ?r "sample_env 42 True True"]
    CompletePostinstall_switches_slot [of ?r "sample_env 42 True False"]
    CompletePostinstall_switches_slot [of ?q "sample_env 42 True True"] h
  show ?thesis
    by (simp add: sample_runner_def sample_plan_def sample_env_def)
qed

end
